theory Spec2Isabelle
  imports Complex_Main "HOL-Library.Sublist" "HOL-Library.Multiset"
begin

section \<open>The filesystem tree scanner (src/util.ts)\<close>

subsection \<open>Scan results\<close>

text \<open>
  The interface \<open>GitRepository\<close> of \<open>util.ts\<close>: three string fields.
\<close>

record GitRepository =
  name :: string
  path :: string
  topLevelFolder :: string

subsection \<open>What the scanner observes of the filesystem\<close>

text \<open>
  The scanner touches the filesystem through three calls only:
  \<open>existsSync(join(dir, '.git'))\<close>, \<open>readdirSync(dir, {withFileTypes: true})\<close> and
  \<open>entry.isDirectory()\<close>. A \<open>node\<close> records what these calls observe.

  \<^item> \<open>File\<close>: anything that is neither a directory nor a symbolic link.
  \<^item> \<open>Symlink target resolves\<close>: a symbolic link with its target text; \<open>resolves\<close> tells
    whether following the link reaches an existing file (it is \<open>False\<close> for a dangling
    link and for a cycle of links). The target may name any path, an ancestor included.
  \<^item> \<open>Dir listable searchable entries\<close>: a directory. \<open>listable\<close> tells whether
    \<open>readdirSync\<close> on it succeeds, \<open>searchable\<close> whether names inside it can be looked
    up (\<open>existsSync\<close> of a child). The two calls fail independently of each other: on
    POSIX the first needs the read permission of the directory and the second its search
    permission. \<open>entries\<close> is the listing in the order \<open>readdirSync\<close> returns it.

  The node given for the working directory is what its path resolves to.
\<close>

datatype node =
    File
  | Symlink string bool
  | Dir bool bool "(string \<times> node) list"

text \<open>\<open>Dirent.isDirectory()\<close>: true for a real directory only, never for a link.\<close>

fun isDirectory :: "node \<Rightarrow> bool" where
  "isDirectory (Dir listable searchable entries) = True"
| "isDirectory other = False"

text \<open>
  \<open>existsSync(join(dir, child))\<close> seen from the node at \<open>dir\<close>. It follows links and
  never throws: every failure is \<open>false\<close>.
\<close>

fun existsSync_in :: "node \<Rightarrow> string \<Rightarrow> bool" where
  "existsSync_in (Dir listable searchable entries) child =
     (searchable \<and>
      (case map_of entries child of
         None \<Rightarrow> False
       | Some (Symlink target resolves) \<Rightarrow> resolves
       | Some other \<Rightarrow> True))"
| "existsSync_in other child = False"

text \<open>
  \<open>readdirSync(dir, {withFileTypes: true})\<close>: \<open>None\<close> stands for the exception it throws
  (permission denied, not a directory).
\<close>

fun readdirSync :: "node \<Rightarrow> (string \<times> node) list option" where
  "readdirSync (Dir listable searchable entries) = (if listable then Some entries else None)"
| "readdirSync other = None"

subsection \<open>Paths\<close>

text \<open>
  \<open>path.join(dir, name)\<close> and \<open>path.basename(dir)\<close> for POSIX paths, on a normalised
  \<open>dir\<close> and a plain file name: the two parts are joined by one slash, which is not
  doubled when \<open>dir\<close> already ends in one (the root \<open>/\<close>); the base name is the last
  segment, trailing slashes ignored.
\<close>

definition with_slash :: "string \<Rightarrow> string" where
  "with_slash dir = (if dir \<noteq> [] \<and> last dir = CHR ''/'' then dir else dir @ ''/'')"

definition join :: "string \<Rightarrow> string \<Rightarrow> string" where
  "join dir child = with_slash dir @ child"

definition basename :: "string \<Rightarrow> string" where
  "basename p =
     rev (takeWhile (\<lambda>c. c \<noteq> CHR ''/'') (dropWhile (\<lambda>c. c = CHR ''/'') (rev p)))"

subsection \<open>The scan\<close>

text \<open>
  \<open>scanDirectory\<close> is the inner closure of \<open>findGitRepositories\<close>; \<open>wd\<close> is the
  \<open>workingDirectory\<close> it closes over and the returned list is what it pushes onto
  \<open>repositories\<close>, in order. The \<open>try\<close> block spans the whole body and the only call in it
  that throws is \<open>readdirSync\<close>; the \<open>catch\<close> block is empty, so a failed listing ends
  the call with nothing pushed.
\<close>

function scanDirectory :: "string \<Rightarrow> string \<Rightarrow> string \<Rightarrow> node \<Rightarrow> GitRepository list" where
  "scanDirectory wd dir tlf n =
     (if existsSync_in n ''.git''
      then [\<lparr>GitRepository.name = basename dir, GitRepository.path = dir, topLevelFolder = tlf\<rparr>]
      else (case readdirSync n of
              None \<Rightarrow> []
            | Some entries \<Rightarrow>
                concat (map (\<lambda>(entry_name, child).
                  if isDirectory child
                  then scanDirectory wd (join dir entry_name)
                         (if dir = wd then entry_name else tlf) child
                  else []) entries)))"
  by pat_completeness auto

termination
proof (relation "measure (\<lambda>(wd, dir, tlf, n). size n)")
  show "wf (measure (\<lambda>(wd, dir, tlf, n). size n))" by simp
next
  fix wd dir tlf :: string and n child :: node
    and entries :: "(string \<times> node) list" and x :: "string \<times> node" and entry_name :: string
  assume listing: "readdirSync n = Some entries" and mem: "x \<in> set entries"
    and x: "(entry_name, child) = x"
  from mem x have "size child \<le> size_list (size_prod (\<lambda>_. 0) size) entries"
    by (induction entries) auto
  moreover from listing obtain l s where "n = Dir l s entries"
    by (cases n) (auto split: if_splits)
  ultimately have "size child < size n" by simp
  then show "((wd, join dir entry_name, if dir = wd then entry_name else tlf, child),
              (wd, dir, tlf, n)) \<in> measure (\<lambda>(wd, dir, tlf, n). size n)"
    by simp
qed

declare scanDirectory.simps [simp del]

text \<open>\<open>findGitRepositories\<close>: the scan starts at the working directory with the root label.\<close>

definition findGitRepositories :: "string \<Rightarrow> node \<Rightarrow> GitRepository list" where
  "findGitRepositories wd tree = scanDirectory wd wd ''/'' tree"

subsection \<open>Well-formed trees and descendants\<close>

text \<open>
  A directory never lists a name twice, and a listed name is a plain file name: not
  empty, without a slash, and neither \<open>.\<close> nor \<open>..\<close> (\<open>readdirSync\<close> leaves these two
  out).
\<close>

definition valid_name :: "string \<Rightarrow> bool" where
  "valid_name nm = (nm \<noteq> [] \<and> CHR ''/'' \<notin> set nm \<and> nm \<noteq> ''.'' \<and> nm \<noteq> ''..'')"

fun wf_node :: "node \<Rightarrow> bool" where
  "wf_node (Dir listable searchable entries) =
     (distinct (map fst entries) \<and>
      list_all (\<lambda>(entry_name, child). valid_name entry_name \<and> wf_node child) entries)"
| "wf_node other = True"

text \<open>
  The path \<open>q\<close> lies strictly below the directory \<open>p\<close>: it continues \<open>p\<close> after a
  slash.
\<close>

definition strict_descendant :: "string \<Rightarrow> string \<Rightarrow> bool" where
  "strict_descendant q p = strict_prefix (with_slash p) q"

text \<open>
  A location under the directory a scan starts in is the list of the names walked
  through, outermost first; \<open>descend\<close> joins it onto the directory's path.
\<close>

definition descend :: "string \<Rightarrow> string list \<Rightarrow> string" where
  "descend dir ns = foldl join dir ns"

text \<open>
  \<open>real_dirs n loc\<close>: walking \<open>loc\<close> down from \<open>n\<close> steps through real directories only,
  never through a link. \<open>without_links\<close> removes every symbolic link from a tree, at every
  depth, except a link named \<open>.git\<close>: such a link is a marker, looked up by
  \<open>existsSync\<close>, and nothing the walk could enter.
\<close>

fun is_link :: "node \<Rightarrow> bool" where
  "is_link (Symlink target resolves) = True"
| "is_link other = False"

fun without_links :: "node \<Rightarrow> node"
  and without_links_entries :: "(string \<times> node) list \<Rightarrow> (string \<times> node) list" where
  "without_links (Dir listable searchable entries) =
     Dir listable searchable (without_links_entries entries)"
| "without_links File = File"
| "without_links (Symlink target resolves) = Symlink target resolves"
| "without_links_entries [] = []"
| "without_links_entries ((entry_name, child) # entries) =
     (if is_link child \<and> entry_name \<noteq> ''.git'' then without_links_entries entries
      else (entry_name, without_links child) # without_links_entries entries)"


text \<open>
  A tree with a repository nested in another one, next to a third: \<open>outer/.git\<close>,
  \<open>outer/inner/.git\<close> and \<open>b/.git\<close>.
\<close>

definition nested_tree :: node where
  "nested_tree =
     Dir True True
       [(''outer'', Dir True True
           [(''.git'', Dir True True []),
            (''inner'', Dir True True [(''.git'', Dir True True [])])]),
        (''b'', Dir True True [(''.git'', File)])]"


subsection \<open>Taking an entry out of a tree\<close>

text \<open>
  An entry of the tree is addressed by the positions to take in the listings on the way
  down. \<open>entry_at\<close> returns the entry (name and node) at such an address and
  \<open>remove_at\<close> is the tree without that entry.
\<close>

fun entry_at :: "node \<Rightarrow> nat list \<Rightarrow> (string \<times> node) option" where
  "entry_at (Dir listable searchable entries) [i] =
     (if i < length entries then Some (entries ! i) else None)"
| "entry_at (Dir listable searchable entries) (i # j # rest) =
     (if i < length entries then entry_at (snd (entries ! i)) (j # rest) else None)"
| "entry_at other loc = None"

fun remove_at :: "nat list \<Rightarrow> node \<Rightarrow> node" where
  "remove_at [i] (Dir listable searchable entries) =
     Dir listable searchable (take i entries @ drop (Suc i) entries)"
| "remove_at (i # j # rest) (Dir listable searchable entries) =
     (if i < length entries
      then Dir listable searchable
             (entries[i := (fst (entries ! i), remove_at (j # rest) (snd (entries ! i)))])
      else Dir listable searchable entries)"
| "remove_at loc other = other"

text \<open>
  Two trees with the repositories \<open>a\<close> and \<open>c\<close> and a directory \<open>b\<close> between them that
  cannot be listed. In \<open>denied_tree\<close> nothing inside \<open>b\<close> can be looked up either (no
  permission at all); in \<open>unlistable_repo_tree\<close> names inside \<open>b\<close> can still be looked
  up (search permission without read permission) and \<open>b\<close> holds \<open>.git\<close>.
\<close>

definition denied_tree :: node where
  "denied_tree =
     Dir True True
       [(''a'', Dir True True [(''.git'', Dir True True [])]),
        (''b'', Dir False False [(''.git'', Dir True True [])]),
        (''c'', Dir True True [(''.git'', Dir True True [])])]"

definition unlistable_repo_tree :: node where
  "unlistable_repo_tree =
     Dir True True
       [(''a'', Dir True True [(''.git'', Dir True True [])]),
        (''b'', Dir False True [(''.git'', Dir True True [])]),
        (''c'', Dir True True [(''.git'', Dir True True [])])]"

section \<open>The JavaScript runtime the code relies on\<close>

subsection \<open>Sorting\<close>

text \<open>
  \<open>Array.prototype.sort(comparefn)\<close> as V8 (the engine of Node.js) runs it on an array of
  fewer than 64 elements, where the minimum run length of its TimSort is the length of the
  array: it takes the run at the start of the array (\<open>CountAndMakeRun\<close>: the first two
  elements decide whether the run is strictly descending, and a descending run is
  reversed), then inserts each later element at the place a binary search finds
  (\<open>BinaryInsertionSort\<close>: the new element is the first argument of every comparison and
  goes to the left half only when the comparator is negative). A comparator result is an
  integer here. With a comparator that is a total preorder every stable sort returns the
  same array, whatever the length.
\<close>

fun run_length :: "('a \<Rightarrow> 'a \<Rightarrow> int) \<Rightarrow> bool \<Rightarrow> 'a \<Rightarrow> 'a list \<Rightarrow> nat" where
  "run_length comparefn descending previous [] = 0"
| "run_length comparefn descending previous (current # later) =
     (let order = comparefn current previous in
      if (if descending then order \<ge> 0 else order < 0) then 0
      else Suc (run_length comparefn descending current later))"

fun countAndMakeRun :: "('a \<Rightarrow> 'a \<Rightarrow> int) \<Rightarrow> 'a list \<Rightarrow> nat \<times> 'a list" where
  "countAndMakeRun comparefn (first # second # later) =
     (let descending = comparefn second first < 0;
          runLength = 2 + run_length comparefn descending second later
      in (runLength,
          if descending
          then rev (take runLength (first # second # later)) @
               drop runLength (first # second # later)
          else first # second # later))"
| "countAndMakeRun comparefn short = (length short, short)"

function insertion_point :: "('a \<Rightarrow> 'a \<Rightarrow> int) \<Rightarrow> 'a \<Rightarrow> 'a list \<Rightarrow> nat \<Rightarrow> nat \<Rightarrow> nat" where
  "insertion_point comparefn pivot work left right =
     (if left < right
      then (let mid = left + (right - left) div 2 in
            if comparefn pivot (work ! mid) < 0
            then insertion_point comparefn pivot work left mid
            else insertion_point comparefn pivot work (mid + 1) right)
      else left)"
  by pat_completeness auto
termination
  by (relation "measure (\<lambda>(comparefn, pivot, work, left, right). right - left)") auto

declare insertion_point.simps [simp del]

definition insert_pivot :: "('a \<Rightarrow> 'a \<Rightarrow> int) \<Rightarrow> 'a \<Rightarrow> 'a list \<Rightarrow> 'a list" where
  "insert_pivot comparefn pivot placed =
     (let left = insertion_point comparefn pivot placed 0 (length placed)
      in take left placed @ pivot # drop left placed)"

fun binaryInsertionSort :: "('a \<Rightarrow> 'a \<Rightarrow> int) \<Rightarrow> 'a list \<Rightarrow> 'a list \<Rightarrow> 'a list" where
  "binaryInsertionSort comparefn placed [] = placed"
| "binaryInsertionSort comparefn placed (pivot # later) =
     binaryInsertionSort comparefn (insert_pivot comparefn pivot placed) later"

definition js_sort :: "('a \<Rightarrow> 'a \<Rightarrow> int) \<Rightarrow> 'a list \<Rightarrow> 'a list" where
  "js_sort comparefn xs =
     (if length xs < 2 then xs
      else (let (runLength, work) = countAndMakeRun comparefn xs
            in binaryInsertionSort comparefn (take runLength work) (drop runLength work)))"

subsection \<open>Strings\<close>

text \<open>
  Strings are ASCII text. \<open>toLowerCase\<close> maps \<open>A\<close> to \<open>Z\<close> onto \<open>a\<close> to \<open>z\<close>; white space
  (what \<open>trim\<close> removes and the pattern \<open>\s\<close> matches) is the space and the control
  characters tab, line feed, vertical tab, form feed and carriage return.
\<close>

definition lower_char :: "char \<Rightarrow> char" where
  "lower_char c =
     (if (65::nat) \<le> of_char c \<and> of_char c \<le> (90::nat)
      then char_of (of_char c + (32::nat)) else c)"

definition toLowerCase :: "string \<Rightarrow> string" where
  "toLowerCase s = map lower_char s"

definition is_space :: "char \<Rightarrow> bool" where
  "is_space c = (of_char c = (32::nat) \<or> ((9::nat) \<le> of_char c \<and> of_char c \<le> (13::nat)))"

definition trim :: "string \<Rightarrow> string" where
  "trim s = rev (dropWhile is_space (rev (dropWhile is_space s)))"

text \<open>
  \<open>s.split(/\s+/)\<close>: the pieces between the runs of white space, an empty piece before a
  leading run and after a trailing one included; the empty string gives one empty piece.
  \<open>split_from piece s\<close> has read the characters \<open>piece\<close> (latest first) of the current
  piece; \<open>split_skip\<close> is inside a run of white space.
\<close>

fun split_from :: "string \<Rightarrow> string \<Rightarrow> string list"
  and split_skip :: "string \<Rightarrow> string list" where
  "split_from piece [] = [rev piece]"
| "split_from piece (c # cs) =
     (if is_space c then rev piece # split_skip cs else split_from (c # piece) cs)"
| "split_skip [] = [[]]"
| "split_skip (c # cs) = (if is_space c then split_skip cs else split_from [c] cs)"

definition split_ws :: "string \<Rightarrow> string list" where
  "split_ws s = split_from [] s"

text \<open>\<open>text.includes(keyword)\<close>: the keyword occurs in the text as a contiguous piece.\<close>

fun string_includes :: "string \<Rightarrow> string \<Rightarrow> bool" where
  "string_includes [] keyword = (keyword = [])"
| "string_includes (c # cs) keyword = (prefix keyword (c # cs) \<or> string_includes cs keyword)"

subsection \<open>JSON values\<close>

text \<open>
  What \<open>JSON.parse\<close> returns. Reading a property of \<open>null\<close> throws a \<open>TypeError\<close>; on an
  object it gives the member or \<open>undefined\<close> (\<open>None\<close>); on any other value the
  properties the cache reader asks for are \<open>undefined\<close>.
\<close>

datatype json =
    JNull
  | JBool bool
  | JNum rat
  | JStr string
  | JArr "json list"
  | JObj "(string \<times> json) list"

datatype error =
    TypeError
  | SyntaxError
  | ReadError
  | WorkingDirectoryMissing string

fun get_prop :: "json \<Rightarrow> string \<Rightarrow> error + json option" where
  "get_prop JNull key = Inl TypeError"
| "get_prop (JObj members) key = Inr (map_of members key)"
| "get_prop other key = Inr None"

section \<open>The repository cache store (src/util.ts)\<close>

text \<open>
  The cache file \<open>~/.ai/ide-repos-cache.json\<close>: absent, present but not readable, or
  readable with a text. The text is either malformed (\<open>JSON.parse\<close> throws a
  \<open>SyntaxError\<close>) or the document of a JSON value, so that \<open>JSON.parse\<close> of
  \<open>JSON.stringify v\<close> is \<open>v\<close>. The directory \<open>~/.ai\<close> exists when the cache is
  used (\<open>readConfig\<close> has read \<open>config.json\<close> in it), so \<open>ensureAiDir\<close> changes nothing,
  and a write replaces the file.
\<close>

datatype content = Malformed | Document json

datatype cache_file = Absent | Unreadable | Readable content

fun existsSync_file :: "cache_file \<Rightarrow> bool" where
  "existsSync_file Absent = False"
| "existsSync_file present = True"

fun readFileSync :: "cache_file \<Rightarrow> error + content" where
  "readFileSync (Readable raw) = Inr raw"
| "readFileSync other = Inl ReadError"

fun JSON_parse :: "content \<Rightarrow> error + json" where
  "JSON_parse (Document v) = Inr v"
| "JSON_parse Malformed = Inl SyntaxError"

definition JSON_stringify :: "json \<Rightarrow> content" where
  "JSON_stringify v = Document v"

text \<open>
  The body of the \<open>try\<close> block of \<open>readIdeReposCache\<close>, with the exceptions it can throw,
  and the function itself, whose \<open>catch\<close> turns every exception into \<open>null\<close> (\<open>None\<close>).
  The elements of \<open>repos\<close> are returned as they are: the cast to \<open>GitRepository[]\<close>
  checks nothing.
\<close>

definition readIdeReposCache_try :: "string \<Rightarrow> cache_file \<Rightarrow> error + json list option" where
  "readIdeReposCache_try wd cache =
     (case readFileSync cache of
        Inl e \<Rightarrow> Inl e
      | Inr raw \<Rightarrow>
         (case JSON_parse raw of
            Inl e \<Rightarrow> Inl e
          | Inr parsed \<Rightarrow>
             (case get_prop parsed ''version'' of
                Inl e \<Rightarrow> Inl e
              | Inr version \<Rightarrow>
                 if version \<noteq> Some (JNum 1) then Inr None
                 else (case get_prop parsed ''workingDirectory'' of
                         Inl e \<Rightarrow> Inl e
                       | Inr dir \<Rightarrow>
                          if dir \<noteq> Some (JStr wd) then Inr None
                          else (case get_prop parsed ''repos'' of
                                  Inl e \<Rightarrow> Inl e
                                | Inr (Some (JArr elements)) \<Rightarrow> Inr (Some elements)
                                | Inr other \<Rightarrow> Inr None)))))"

definition readIdeReposCache :: "string \<Rightarrow> cache_file \<Rightarrow> json list option" where
  "readIdeReposCache wd cache =
     (if \<not> existsSync_file cache then None
      else (case readIdeReposCache_try wd cache of Inl e \<Rightarrow> None | Inr result \<Rightarrow> result))"

text \<open>
  \<open>writeIdeReposCache\<close>: the payload, serialised, replaces the file. \<open>now\<close> is
  \<open>Date.now()\<close>.
\<close>

definition repo_json :: "GitRepository \<Rightarrow> json" where
  "repo_json r =
     JObj [(''name'', JStr (GitRepository.name r)),
           (''path'', JStr (GitRepository.path r)),
           (''topLevelFolder'', JStr (topLevelFolder r))]"

definition payload :: "string \<Rightarrow> int \<Rightarrow> GitRepository list \<Rightarrow> json" where
  "payload wd now found =
     JObj [(''version'', JNum 1),
           (''workingDirectory'', JStr wd),
           (''updatedAt'', JNum (of_int now)),
           (''repos'', JArr (map repo_json found))]"

definition writeIdeReposCache :: "string \<Rightarrow> GitRepository list \<Rightarrow> int \<Rightarrow> cache_file \<Rightarrow> cache_file" where
  "writeIdeReposCache wd found now cache = Readable (JSON_stringify (payload wd now found))"

text \<open>
  The words of the specification for a cache hit: the snapshot file exists, parses, has
  \<open>version\<close> equal to 1, has \<open>workingDirectory\<close> exactly equal to the requested one and
  has a list-shaped \<open>repos\<close> field, the list being \<open>elements\<close>.
\<close>

definition snapshot_hit :: "string \<Rightarrow> cache_file \<Rightarrow> json list \<Rightarrow> bool" where
  "snapshot_hit wd cache elements =
     (\<exists>members. cache = Readable (Document (JObj members)) \<and>
        map_of members ''version'' = Some (JNum 1) \<and>
        map_of members ''workingDirectory'' = Some (JStr wd) \<and>
        map_of members ''repos'' = Some (JArr elements))"

section \<open>The project catalog and the picker (src/commands/ide/index.ts)\<close>

subsection \<open>Configuration and module state\<close>

text \<open>
  \<open>HshConfig\<close> as \<open>readConfig\<close> returns it, with the two fields the catalog reads: the
  optional \<open>workingDirectory\<close> and the manual map \<open>repos\<close> from category to project name
  to path, in the order of the file. The module variables of \<open>index.ts\<close> form
  \<open>ide_state\<close>; a variable still \<open>undefined\<close> is \<open>None\<close>.
\<close>

type_synonym ReposConfig = "(string \<times> (string \<times> string) list) list"

record HshConfig =
  workingDirectory :: "string option"
  repos :: ReposConfig

record ide_state =
  reposConfig :: "ReposConfig option"
  workingDirectory :: "string option"
  autoDiscoveredRepos :: "GitRepository list"

definition initial_state :: ide_state where
  "initial_state = \<lparr>reposConfig = None, workingDirectory = None, autoDiscoveredRepos = []\<rparr>"

text \<open>The truth value of an optional string in a condition: set and not empty.\<close>

fun truthy :: "string option \<Rightarrow> bool" where
  "truthy None = False"
| "truthy (Some s) = (s \<noteq> [])"

text \<open>
  The cast of the cached elements to \<open>GitRepository[]\<close> checks nothing in the source;
  what follows it (the comparator of the sort, the projection of the catalog) reads the
  three string properties of each element. The model covers the cached lists whose
  elements are objects with these three string properties, as \<open>writeIdeReposCache\<close>
  writes them, and ends a run on any other cached list with \<open>TypeError\<close>, the exception
  the comparator throws on an element without a string \<open>name\<close>.
\<close>

fun as_GitRepository :: "json \<Rightarrow> GitRepository option" where
  "as_GitRepository (JObj members) =
     (case (map_of members ''name'', map_of members ''path'', map_of members ''topLevelFolder'') of
        (Some (JStr n), Some (JStr p), Some (JStr t)) \<Rightarrow>
          Some \<lparr>GitRepository.name = n, GitRepository.path = p, topLevelFolder = t\<rparr>
      | other \<Rightarrow> None)"
| "as_GitRepository other = None"

fun as_GitRepositories :: "json list \<Rightarrow> GitRepository list option" where
  "as_GitRepositories [] = Some []"
| "as_GitRepositories (v # vs) =
     (case as_GitRepository v of
        None \<Rightarrow> None
      | Some r \<Rightarrow> (case as_GitRepositories vs of None \<Rightarrow> None | Some rs \<Rightarrow> Some (r # rs)))"

subsection \<open>Loading the configuration\<close>

text \<open>
  \<open>loadConfig\<close>. \<open>localeCompare\<close> is the string comparison of the runtime, \<open>fs\<close> gives
  the node a path resolves to (\<open>None\<close> when nothing exists there), \<open>now\<close> is the clock,
  \<open>refreshReposCache\<close> the option of that name and \<open>config\<close> what \<open>readConfig()\<close>
  returned. The state is the module variables and the cache file.
\<close>

definition sortByName :: "(string \<Rightarrow> string \<Rightarrow> int) \<Rightarrow> GitRepository list \<Rightarrow> GitRepository list" where
  "sortByName localeCompare found =
     js_sort (\<lambda>a b. localeCompare (GitRepository.name a) (GitRepository.name b)) found"

definition loadConfig ::
  "(string \<Rightarrow> string \<Rightarrow> int) \<Rightarrow> (string \<Rightarrow> node option) \<Rightarrow> int \<Rightarrow> bool \<Rightarrow> HshConfig \<Rightarrow>
   ide_state \<times> cache_file \<Rightarrow> error + ide_state \<times> cache_file" where
  "loadConfig localeCompare fs now refreshReposCache config state =
     (case state of (st, cache) \<Rightarrow>
      if truthy (HshConfig.workingDirectory config)
      then (let wd = the (HshConfig.workingDirectory config) in
            case fs wd of
              None \<Rightarrow> Inl (WorkingDirectoryMissing wd)
            | Some tree \<Rightarrow>
                if refreshReposCache
                then (let found = findGitRepositories wd tree in
                      Inr (st\<lparr>ide_state.workingDirectory := Some wd,
                              autoDiscoveredRepos := sortByName localeCompare found\<rparr>,
                           writeIdeReposCache wd found now cache))
                else (case readIdeReposCache wd cache of
                        Some cached \<Rightarrow>
                          (case as_GitRepositories cached of
                             None \<Rightarrow> Inl TypeError
                           | Some found \<Rightarrow>
                               Inr (st\<lparr>ide_state.workingDirectory := Some wd,
                                       autoDiscoveredRepos := sortByName localeCompare found\<rparr>,
                                    cache))
                      | None \<Rightarrow>
                          (let found = findGitRepositories wd tree in
                           Inr (st\<lparr>ide_state.workingDirectory := Some wd,
                                   autoDiscoveredRepos := sortByName localeCompare found\<rparr>,
                                writeIdeReposCache wd found now cache))))
      else Inr (st\<lparr>reposConfig := Some (repos config)\<rparr>, cache))"

subsection \<open>The catalog\<close>

record project =
  category :: string
  name :: string
  path :: string
  display :: string

definition getAllProjects :: "ide_state \<Rightarrow> project list" where
  "getAllProjects st =
     (if truthy (ide_state.workingDirectory st)
      then map (\<lambda>repo. \<lparr>category = topLevelFolder repo,
                        name = GitRepository.name repo,
                        path = GitRepository.path repo,
                        display = GitRepository.name repo @ '' ('' @ GitRepository.path repo @ '')''\<rparr>)
             (autoDiscoveredRepos st)
      else (case reposConfig st of
              None \<Rightarrow> []
            | Some manual \<Rightarrow>
                concat (map (\<lambda>(cat, projects).
                  map (\<lambda>(nm, p). \<lparr>category = cat, name = nm, path = p,
                                   display = nm @ '' ('' @ cat @ '')''\<rparr>) projects) manual)))"

subsection \<open>Searching and formatting\<close>

text \<open>
  A row handed to the prompt: a separator (\<open>disabled: 'separator'\<close>) with its label, or a
  selectable row with its label and the project as its value.
\<close>

datatype choice = Separator string | Choice string project

text \<open>The filter of \<open>searchAllProjects\<close>: the value of its variable \<open>filteredProjects\<close>.\<close>

definition filteredProjects :: "string \<Rightarrow> project list \<Rightarrow> project list" where
  "filteredProjects input allProjects =
     (if input \<noteq> []
      then (let keywords = split_ws (trim (toLowerCase input)) in
            filter (\<lambda>p.
              (let searchText =
                 toLowerCase (project.name p @ '' '' @ category p @ '' '' @ project.path p)
               in list_all (\<lambda>keyword. string_includes searchText keyword) keywords))
              allProjects)
      else allProjects)"

text \<open>
  The \<open>Map\<close> built by \<open>formatProjectsWithSeparators\<close> keeps its keys in the order they
  were first set: an association list with unique keys. \<open>group_project\<close> is one round of
  the first \<open>forEach\<close>.
\<close>

definition group_project ::
  "(string \<times> project list) list \<Rightarrow> project \<Rightarrow> (string \<times> project list) list" where
  "group_project grouped p =
     (let withKey = (if map_of grouped (category p) = None
                     then grouped @ [(category p, [])] else grouped)
      in map (\<lambda>(key, members). if key = category p then (key, members @ [p]) else (key, members))
           withKey)"

text \<open>The comparator of the category sort, with \<open>localeCompare\<close> of the runtime.\<close>

definition compareCategories :: "(string \<Rightarrow> string \<Rightarrow> int) \<Rightarrow> string \<Rightarrow> string \<Rightarrow> int" where
  "compareCategories localeCompare a b =
     (if a = ''/'' then 1 else if b = ''/'' then 1 else localeCompare a b)"

definition sortedCategories :: "(string \<Rightarrow> string \<Rightarrow> int) \<Rightarrow> project list \<Rightarrow> string list" where
  "sortedCategories localeCompare projects =
     js_sort (compareCategories localeCompare) (map fst (foldl group_project [] projects))"

definition formatProjectsWithSeparators ::
  "(string \<Rightarrow> string \<Rightarrow> int) \<Rightarrow> project list \<Rightarrow> choice list" where
  "formatProjectsWithSeparators localeCompare projects =
     (let grouped = foldl group_project [] projects in
      concat (map (\<lambda>cat.
        (let categoryProjects = (case map_of grouped cat of Some members \<Rightarrow> members | None \<Rightarrow> []);
             categoryLabel = (if cat = ''/'' then ''/ (root)'' else cat)
         in Separator (''---------  '' @ categoryLabel @ ''  ---------'') #
            map (\<lambda>p. Choice (''  '' @ display p) p) categoryProjects))
        (sortedCategories localeCompare projects)))"

definition searchAllProjects :: "(string \<Rightarrow> string \<Rightarrow> int) \<Rightarrow> ide_state \<Rightarrow> string \<Rightarrow> choice list" where
  "searchAllProjects localeCompare st input =
     (let filtered = filteredProjects input (getAllProjects st) in
      if truthy (ide_state.workingDirectory st)
      then formatProjectsWithSeparators localeCompare filtered
      else map (\<lambda>p. Choice (display p) p) filtered)"

text \<open>
  What \<open>openIDE\<close> shows in its single-step flow (auto-discovery mode, or a search keyword
  given on the command line) for an input typed at the prompt: the configuration is loaded
  (without refresh) into the fresh module state, then the prompt asks
  \<open>searchAllProjects\<close>.
\<close>

definition openIDE_choices ::
  "(string \<Rightarrow> string \<Rightarrow> int) \<Rightarrow> (string \<Rightarrow> node option) \<Rightarrow> int \<Rightarrow> HshConfig \<Rightarrow> cache_file \<Rightarrow>
   string \<Rightarrow> error + choice list" where
  "openIDE_choices localeCompare fs now config cache input =
     (case loadConfig localeCompare fs now False config (initial_state, cache) of
        Inl e \<Rightarrow> Inl e
      | Inr (st, cache') \<Rightarrow> Inr (searchAllProjects localeCompare st input))"

subsection \<open>Inputs of the examples\<close>

text \<open>
  A filesystem with one path on it, a \<open>localeCompare\<close> that calls all strings equal,
  configurations with the working directory \<open>/x\<close> and with an empty working directory,
  a tree with one repository, and a stale snapshot for \<open>/x\<close> that lists no repository.
\<close>

definition only_at :: "string \<Rightarrow> node \<Rightarrow> string \<Rightarrow> node option" where
  "only_at p tree q = (if q = p then Some tree else None)"

definition no_order :: "string \<Rightarrow> string \<Rightarrow> int" where
  "no_order a b = 0"

definition auto_config :: "ReposConfig \<Rightarrow> HshConfig" where
  "auto_config manual = \<lparr>HshConfig.workingDirectory = Some ''/x'', repos = manual\<rparr>"

definition empty_wd_config :: "ReposConfig \<Rightarrow> HshConfig" where
  "empty_wd_config manual = \<lparr>HshConfig.workingDirectory = Some [], repos = manual\<rparr>"

definition added_repo_tree :: node where
  "added_repo_tree = Dir True True [(''new'', Dir True True [(''.git'', Dir True True [])])]"

definition stale_snapshot :: cache_file where
  "stale_snapshot = Readable (Document (payload ''/x'' 1 []))"

subsection \<open>The search as the specification words it\<close>

text \<open>
  The keywords of a search string in the words of the specification: the string trimmed,
  lowercased and split on white space. A keyword is a case-insensitive substring of a text
  when its lowercase form occurs in the lowercase form of the text.
\<close>

definition spec_keywords :: "string \<Rightarrow> string list" where
  "spec_keywords input = split_ws (toLowerCase (trim input))"

definition ci_substring :: "string \<Rightarrow> string \<Rightarrow> bool" where
  "ci_substring keyword whole = sublist (toLowerCase keyword) (toLowerCase whole)"

text \<open>
  A catalog entry whose name ends in \<open>b\<close> and whose category starts with \<open>c\<close>, and a
  catalog in which the root category comes first.
\<close>

definition cross_field_project :: project where
  "cross_field_project = \<lparr>category = ''cd'', name = ''ab'', path = ''/x'', display = ''ab (/x)''\<rparr>"

definition root_first_projects :: "project list" where
  "root_first_projects =
     [\<lparr>category = ''/'', name = ''work'', path = ''/work'', display = ''work (/work)''\<rparr>,
      \<lparr>category = ''a'', name = ''x'', path = ''/work/a/x'', display = ''x (/work/a/x)''\<rparr>]"

section \<open>Properties of the scanner\<close>

subsection \<open>The scan by kind of node\<close>

lemma scanDirectory_Dir:
  "scanDirectory wd dir tlf (Dir listable searchable entries) =
     (if existsSync_in (Dir listable searchable entries) ''.git''
      then [\<lparr>GitRepository.name = basename dir, GitRepository.path = dir, topLevelFolder = tlf\<rparr>]
      else if listable
      then concat (map (\<lambda>(entry_name, child).
             if isDirectory child
             then scanDirectory wd (join dir entry_name)
                    (if dir = wd then entry_name else tlf) child
             else []) entries)
      else [])"
  by (subst scanDirectory.simps) simp

lemma scanDirectory_File: "scanDirectory wd dir tlf File = []"
  by (subst scanDirectory.simps) simp

lemma scanDirectory_Symlink: "scanDirectory wd dir tlf (Symlink target resolves) = []"
  by (subst scanDirectory.simps) simp

lemmas scanDirectory_eval = scanDirectory_Dir scanDirectory_File scanDirectory_Symlink

subsection \<open>The label of a repository directly under the scan root\<close>

text \<open>
  The scan root itself, when it holds the marker, is the one entry with the root label; a
  repository directly under the scan root is labelled with its own name.
\<close>

lemma scan_root_repository:
  "existsSync_in tree ''.git'' \<Longrightarrow>
   findGitRepositories wd tree =
     [\<lparr>GitRepository.name = basename wd, GitRepository.path = wd, topLevelFolder = ''/''\<rparr>]"
  by (simp add: findGitRepositories_def scanDirectory.simps)

lemma scan_direct_child:
  assumes "\<not> existsSync_in (Dir True searchable entries) ''.git''"
    and "(nm, child) \<in> set entries" and "isDirectory child" and "existsSync_in child ''.git''"
  shows "\<lparr>GitRepository.name = basename (join wd nm), GitRepository.path = join wd nm,
           topLevelFolder = nm\<rparr> \<in> set (findGitRepositories wd (Dir True searchable entries))"
proof -
  have "scanDirectory wd (join wd nm) nm child =
      [\<lparr>GitRepository.name = basename (join wd nm), GitRepository.path = join wd nm,
        topLevelFolder = nm\<rparr>]"
    using assms(4) by (simp add: scanDirectory.simps)
  with assms(1-3) show ?thesis
    unfolding findGitRepositories_def
    by (subst scanDirectory_Dir) (force simp del: existsSync_in.simps)
qed


subsection \<open>Unique paths, outermost repositories only\<close>

text \<open>
  The location of a reported repository relative to the directory the scan started in:
  the names of the directories walked through, outermost first. \<open>repo_locs\<close> follows
  the recursion of \<open>scanDirectory\<close>.
\<close>

function repo_locs :: "node \<Rightarrow> string list list" where
  "repo_locs n =
     (if existsSync_in n ''.git'' then [[]]
      else (case readdirSync n of
              None \<Rightarrow> []
            | Some entries \<Rightarrow>
                concat (map (\<lambda>(entry_name, child).
                  if isDirectory child then map ((#) entry_name) (repo_locs child) else [])
                  entries)))"
  by pat_completeness auto
termination
proof (relation "measure size")
  show "wf (measure (size :: node \<Rightarrow> nat))" by simp
next
  fix n child :: node
    and entries :: "(string \<times> node) list" and x :: "string \<times> node" and entry_name :: string
  assume listing: "readdirSync n = Some entries" and mem: "x \<in> set entries"
    and x: "(entry_name, child) = x"
  from mem x have "size child \<le> size_list (size_prod (\<lambda>_. 0) size) entries"
    by (induction entries) auto
  moreover from listing obtain l s where "n = Dir l s entries"
    by (cases n) (auto split: if_splits)
  ultimately have "size child < size n" by simp
  then show "(child, n) \<in> measure size"
    by simp
qed
declare repo_locs.simps [simp del]

lemma descend_simps [simp]: "descend d [] = d" "descend d (n # ns) = descend (join d n) ns"
  by (simp_all add: descend_def)

lemma paths_locs:
  "map GitRepository.path (scanDirectory wd dir tlf n) = map (descend dir) (repo_locs n)"
proof (induction wd dir tlf n rule: scanDirectory.induct)
  case (1 wd dir tlf n)
  show ?case
  proof (cases "existsSync_in n ''.git''")
    case True
    then show ?thesis by (subst scanDirectory.simps, subst repo_locs.simps) simp
  next
    case False
    show ?thesis
    proof (cases "readdirSync n")
      case None
      with False show ?thesis by (subst scanDirectory.simps, subst repo_locs.simps) simp
    next
      case (Some entries)
      have "map GitRepository.path (case x of (entry_name, child) \<Rightarrow>
                  if isDirectory child
                  then scanDirectory wd (join dir entry_name)
                         (if dir = wd then entry_name else tlf) child
                  else []) = map (descend dir) (case x of (entry_name, child) \<Rightarrow>
                  if isDirectory child then map ((#) entry_name) (repo_locs child) else [])"
        if "x \<in> set entries" for x
        using "1.IH"[OF False Some that] by (cases x) (auto simp: comp_def)
      then show ?thesis using False Some
        by (subst scanDirectory.simps, subst repo_locs.simps)
           (simp add: map_concat comp_def cong: map_cong)
    qed
  qed
qed


text \<open>Joined paths as strings: one slash and one name for each step.\<close>

definition tail_str :: "string list \<Rightarrow> string" where
  "tail_str ns = concat (map (\<lambda>m. ''/'' @ m) ns)"

lemma tail_str_simps [simp]: "tail_str [] = []" "tail_str (n # ns) = ''/'' @ n @ tail_str ns"
  by (simp_all add: tail_str_def)

lemma valid_name_last: "valid_name n \<Longrightarrow> n \<noteq> [] \<and> last n \<noteq> CHR ''/''"
  by (metis last_in_set valid_name_def)

lemma with_slash_join:
  "valid_name n \<Longrightarrow> with_slash (join d n) = join d n @ ''/''"
proof -
  assume "valid_name n"
  then show ?thesis
    by (simp add: with_slash_def join_def valid_name_last)
qed

lemma descend_join:
  "valid_name n \<Longrightarrow> list_all valid_name ns \<Longrightarrow> descend (join d n) ns = join d n @ tail_str ns"
proof (induction ns arbitrary: d n)
  case Nil
  then show ?case by simp
next
  case (Cons m ms)
  then have "descend (join (join d n) m) ms = join (join d n) m @ tail_str ms" by simp
  moreover have "join (join d n) m = join d n @ ''/'' @ m"
    using Cons.prems(1) by (simp add: join_def[of "join d n"] with_slash_join)
  ultimately show ?case by simp
qed

lemma segment_split:
  assumes "CHR ''/'' \<notin> set a" "CHR ''/'' \<notin> set b"
    and "r = [] \<or> hd r = CHR ''/''" "r' = [] \<or> hd r' = CHR ''/''"
    and "a @ r = b @ r'"
  shows "a = b \<and> r = r'"
proof -
  have tw: "takeWhile (\<lambda>c. c \<noteq> CHR ''/'') (x @ y) = x"
    if "CHR ''/'' \<notin> set x" "y = [] \<or> hd y = CHR ''/''" for x y :: string
  proof -
    have "takeWhile (\<lambda>c. c \<noteq> CHR ''/'') y = []" using that(2) by (cases y) auto
    moreover have "takeWhile (\<lambda>c. c \<noteq> CHR ''/'') (x @ y) = x @ takeWhile (\<lambda>c. c \<noteq> CHR ''/'') y"
      using that(1) by (intro takeWhile_append2) auto
    ultimately show ?thesis by simp
  qed
  have "a = takeWhile (\<lambda>c. c \<noteq> CHR ''/'') (a @ r)" using tw[OF assms(1,3)] by simp
  also have "\<dots> = b" using tw[OF assms(2,4)] assms(5) by simp
  finally have "a = b" .
  with assms(5) show ?thesis by simp
qed

lemma tail_str_head: "tail_str ns = [] \<or> hd (tail_str ns) = CHR ''/''"
  by (cases ns) simp_all

lemma tail_str_inj:
  "list_all valid_name ns \<Longrightarrow> list_all valid_name ms \<Longrightarrow> tail_str ns = tail_str ms \<Longrightarrow> ns = ms"
proof (induction ns arbitrary: ms)
  case Nil
  then show ?case by (cases ms) simp_all
next
  case (Cons n ns)
  then obtain m ms' where ms: "ms = m # ms'" by (cases ms) auto
  with Cons.prems have "n @ tail_str ns = m @ tail_str ms'" by simp
  moreover have "CHR ''/'' \<notin> set n" "CHR ''/'' \<notin> set m"
    using Cons.prems ms by (simp_all add: valid_name_def)
  ultimately have "n = m \<and> tail_str ns = tail_str ms'"
    using tail_str_head by (intro segment_split) auto
  with Cons ms show ?case by simp
qed

lemma tail_str_prefix:
  "list_all valid_name ns \<Longrightarrow> list_all valid_name ms \<Longrightarrow>
   prefix (tail_str ns @ ''/'') (tail_str ms) \<Longrightarrow> strict_prefix ns ms"
proof (induction ns arbitrary: ms)
  case Nil
  then show ?case by (cases ms) auto
next
  case (Cons n ns)
  then obtain m ms' where ms: "ms = m # ms'" by (cases ms) auto
  from Cons.prems(3) ms obtain z where "n @ (tail_str ns @ ''/'' @ z) = m @ tail_str ms'"
    by (auto simp: prefix_def)
  moreover have "CHR ''/'' \<notin> set n" "CHR ''/'' \<notin> set m"
    using Cons.prems ms by (simp_all add: valid_name_def)
  moreover have "tail_str ns @ ''/'' @ z = [] \<or> hd (tail_str ns @ ''/'' @ z) = CHR ''/''"
    using tail_str_head[of ns] by (cases "tail_str ns") auto
  ultimately have eq: "n = m \<and> tail_str ns @ ''/'' @ z = tail_str ms'"
    using tail_str_head by (intro segment_split) auto
  then have "prefix (tail_str ns @ ''/'') (tail_str ms')"
    by (metis append.assoc prefixI)
  with Cons ms have "strict_prefix ns ms'" by simp
  with eq ms show ?case by simp
qed

lemma descend_longer:
  "valid_name n \<Longrightarrow> list_all valid_name ns \<Longrightarrow> length d < length (descend d (n # ns))"
  by (simp add: descend_join) (simp add: join_def with_slash_def valid_name_def)

lemma descend_inj:
  assumes "list_all valid_name ns" "list_all valid_name ms" "descend d ns = descend d ms"
  shows "ns = ms"
proof (cases ns)
  case Nil
  show ?thesis
  proof (cases ms)
    case (Cons m ms')
    with assms Nil descend_longer[of m ms' d] show ?thesis by simp
  qed (simp add: Nil)
next
  case n: (Cons n ns')
  show ?thesis
  proof (cases ms)
    case Nil
    with assms n descend_longer[of n ns' d] show ?thesis by simp
  next
    case (Cons m ms')
    from assms n Cons have "join d n @ tail_str ns' = join d m @ tail_str ms'"
      by (simp add: descend_join)
    then have "n @ tail_str ns' = m @ tail_str ms'"
      by (simp add: join_def)
    moreover have "CHR ''/'' \<notin> set n" "CHR ''/'' \<notin> set m"
      using assms n Cons by (simp_all add: valid_name_def)
    ultimately have "n = m \<and> tail_str ns' = tail_str ms'"
      using tail_str_head by (intro segment_split) auto
    with assms n Cons show ?thesis by (auto dest: tail_str_inj)
  qed
qed

lemma descend_descendant:
  assumes "list_all valid_name ns" "list_all valid_name ms"
    and "strict_descendant (descend d ms) (descend d ns)"
  shows "strict_prefix ns ms"
proof -
  have len: "length (descend d ns) < length (descend d ms)"
    using assms(3) by (auto simp: strict_descendant_def with_slash_def dest!: prefix_length_less split: if_splits)
  show ?thesis
  proof (cases ns)
    case Nil
    with len show ?thesis by (cases ms) auto
  next
    case n: (Cons n ns')
    show ?thesis
    proof (cases ms)
      case Nil
      with len n assms descend_longer[of n ns' d] show ?thesis by simp
    next
      case (Cons m ms')
      have vn: "valid_name n" "list_all valid_name ns'" "valid_name m" "list_all valid_name ms'"
        using assms n Cons by simp_all
      have "descend d ns = join d n @ tail_str ns'"
        using vn n by (simp add: descend_join)
      then have p: "descend d ns = with_slash d @ n @ tail_str ns'"
        by (simp add: join_def)
      have nonslash: "with_slash (descend d ns) = descend d ns @ ''/''"
      proof (cases ns' rule: rev_cases)
        case Nil
        then show ?thesis using n vn by (simp add: with_slash_join)
      next
        case (snoc ys y)
        then have "valid_name y" using vn by simp
        then have "y \<noteq> [] \<and> last y \<noteq> CHR ''/''" by (rule valid_name_last)
        then show ?thesis using p snoc by (simp add: with_slash_def tail_str_def)
      qed
      have "descend d ms = join d m @ tail_str ms'"
        using vn Cons by (simp add: descend_join)
      then have q: "descend d ms = with_slash d @ m @ tail_str ms'"
        by (simp add: join_def)
      from assms(3) have "prefix (with_slash d @ n @ tail_str ns' @ ''/'') (with_slash d @ m @ tail_str ms')"
        unfolding strict_descendant_def nonslash by (simp add: p q strict_prefix_def)
      then obtain z where "n @ (tail_str ns' @ ''/'' @ z) = m @ tail_str ms'"
        by (auto simp: prefix_def)
      moreover have "CHR ''/'' \<notin> set n" "CHR ''/'' \<notin> set m"
        using vn by (simp_all add: valid_name_def)
      moreover have "tail_str ns' @ ''/'' @ z = [] \<or> hd (tail_str ns' @ ''/'' @ z) = CHR ''/''"
        using tail_str_head[of ns'] by (cases "tail_str ns'") auto
      ultimately have eq: "n = m \<and> tail_str ns' @ ''/'' @ z = tail_str ms'"
        using tail_str_head by (intro segment_split) auto
      then have "prefix (tail_str ns' @ ''/'') (tail_str ms')"
        by (metis append.assoc prefixI)
      then have "strict_prefix ns' ms'" using vn by (intro tail_str_prefix)
      with eq n Cons show ?thesis by simp
    qed
  qed
qed


text \<open>The locations reported in a well-formed tree.\<close>

lemma repo_locs_marker: "existsSync_in n ''.git'' \<Longrightarrow> repo_locs n = [[]]"
  by (subst repo_locs.simps) simp

lemma repo_locs_listing:
  "\<not> existsSync_in n ''.git'' \<Longrightarrow> readdirSync n = Some entries \<Longrightarrow>
   repo_locs n = concat (map (\<lambda>(entry_name, child).
      if isDirectory child then map ((#) entry_name) (repo_locs child) else []) entries)"
  by (subst repo_locs.simps) simp

lemma repo_locs_unlisted:
  "\<not> existsSync_in n ''.git'' \<Longrightarrow> readdirSync n = None \<Longrightarrow> repo_locs n = []"
  by (subst repo_locs.simps) simp

lemma wf_node_listing:
  assumes "wf_node n" "readdirSync n = Some entries"
  shows "distinct (map fst entries)"
    and "(e, child) \<in> set entries \<Longrightarrow> valid_name e \<and> wf_node child"
  using assms by (cases n; auto simp: list_all_iff split: if_splits)+

lemma in_entries_locs:
  "loc \<in> set (concat (map (\<lambda>(entry_name, child).
      if isDirectory child then map ((#) entry_name) (g child) else []) entries)) \<longleftrightarrow>
   (\<exists>e child rest. (e, child) \<in> set entries \<and> isDirectory child \<and> rest \<in> set (g child) \<and>
      loc = e # rest)"
  by (induction entries) (auto split: if_splits)

lemma distinct_entries_locs:
  assumes "distinct (map fst entries)"
    and "\<And>e child. (e, child) \<in> set entries \<Longrightarrow> distinct (g child)"
  shows "distinct (concat (map (\<lambda>(entry_name, child).
      if isDirectory child then map ((#) entry_name) (g child) else []) entries))"
  using assms
proof (induction entries)
  case Nil
  then show ?case by simp
next
  case (Cons x xs)
  obtain e child where x: "x = (e, child)" by (cases x)
  define others where "others = concat (map (\<lambda>(entry_name, child).
      if isDirectory child then map ((#) entry_name) (g child) else []) xs)"
  have rest: "distinct others"
    unfolding others_def
  proof (rule Cons.IH)
    show "distinct (map fst xs)" using Cons.prems(1) by simp
    show "distinct (g child)" if "(e, child) \<in> set xs" for e child
      using Cons.prems(2)[of e child] that by simp
  qed
  have here: "distinct (map ((#) e) (g child))"
    using Cons.prems(2)[of e child] x by (simp add: distinct_map)
  have apart: "e # r \<notin> set others" for r
  proof
    assume "e # r \<in> set others"
    then obtain c where "(e, c) \<in> set xs"
      unfolding others_def in_entries_locs by blast
    then have "e \<in> fst ` set xs" by force
    with Cons.prems(1) x show False by simp
  qed
  then have "set (map ((#) e) (g child)) \<inter> set others = {}" by auto
  with rest here have "distinct (map ((#) e) (g child) @ others)" by simp
  with rest x show ?case by (simp add: others_def)
qed

lemma repo_locs_wf:
  "wf_node n \<Longrightarrow>
     distinct (repo_locs n) \<and>
     (\<forall>a \<in> set (repo_locs n). list_all valid_name a) \<and>
     (\<forall>a \<in> set (repo_locs n). \<forall>b \<in> set (repo_locs n). \<not> strict_prefix a b)"
proof (induction n rule: repo_locs.induct)
  case (1 n)
  show ?case
  proof (cases "existsSync_in n ''.git''")
    case True
    then show ?thesis by (simp add: repo_locs_marker)
  next
    case False
    show ?thesis
    proof (cases "readdirSync n")
      case None
      with False show ?thesis by (simp add: repo_locs_unlisted)
    next
      case (Some entries)
      note eq = repo_locs_listing[OF False Some]
      have ih: "distinct (repo_locs child) \<and>
         (\<forall>a \<in> set (repo_locs child). list_all valid_name a) \<and>
         (\<forall>a \<in> set (repo_locs child). \<forall>b \<in> set (repo_locs child). \<not> strict_prefix a b)"
        and vn: "valid_name e"
        if "(e, child) \<in> set entries" for e child
      proof -
        from wf_node_listing(2)[OF "1.prems" Some that]
        have v: "valid_name e" and w: "wf_node child" by simp_all
        show "valid_name e" by (rule v)
        show "distinct (repo_locs child) \<and>
         (\<forall>a \<in> set (repo_locs child). list_all valid_name a) \<and>
         (\<forall>a \<in> set (repo_locs child). \<forall>b \<in> set (repo_locs child). \<not> strict_prefix a b)"
        proof (cases "isDirectory child")
          case True
          from "1.IH"[OF False Some that refl True w] show ?thesis .
        next
          case False
          then have "repo_locs child = []"
            by (cases child) (simp_all add: repo_locs_unlisted)
          then show ?thesis by simp
        qed
      qed
      have d: "distinct (map fst entries)" by (rule wf_node_listing(1)[OF "1.prems" Some])
      have unique: "c = c'" if "(e, c) \<in> set entries" "(e, c') \<in> set entries" for e c c'
        using d that by (meson eq_key_imp_eq_value)
      have "distinct (repo_locs n)"
        unfolding eq using d ih by (intro distinct_entries_locs) auto
      moreover have "\<forall>a \<in> set (repo_locs n). list_all valid_name a"
        unfolding eq in_entries_locs using ih vn by auto
      moreover have "\<not> strict_prefix a b"
        if a: "a \<in> set (repo_locs n)" and b: "b \<in> set (repo_locs n)" for a b
      proof
        assume sp: "strict_prefix a b"
        from a obtain e c ra where a': "(e, c) \<in> set entries" "ra \<in> set (repo_locs c)" "a = e # ra"
          unfolding eq in_entries_locs by blast
        from b obtain e' c' rb where b': "(e', c') \<in> set entries" "rb \<in> set (repo_locs c')" "b = e' # rb"
          unfolding eq in_entries_locs by blast
        from sp a' b' have "e = e'" "strict_prefix ra rb" by simp_all
        with a' b' unique have "c = c'" by blast
        with ih[OF a'(1)] a'(2) b'(2) \<open>strict_prefix ra rb\<close> show False by blast
      qed
      ultimately show ?thesis by blast
    qed
  qed
qed

text \<open>
  Claim C3. In the scan of a well-formed tree no two entries have the same path, and no
  entry's path lies strictly below the path of another entry: the scan stops descending at
  a directory it reports.
\<close>

theorem scan_paths_unique_and_outermost:
  assumes "wf_node tree"
  shows "distinct (map GitRepository.path (findGitRepositories wd tree)) \<and>
         (\<forall>r \<in> set (findGitRepositories wd tree). \<forall>r' \<in> set (findGitRepositories wd tree).
            \<not> strict_descendant (GitRepository.path r') (GitRepository.path r))"
proof -
  let ?locs = "repo_locs tree"
  note wf = repo_locs_wf[OF assms]
  have paths: "map GitRepository.path (findGitRepositories wd tree) = map (descend wd) ?locs"
    by (simp add: findGitRepositories_def paths_locs)
  have "inj_on (descend wd) (set ?locs)"
  proof (rule inj_onI)
    fix a b assume "a \<in> set ?locs" "b \<in> set ?locs" "descend wd a = descend wd b"
    with wf show "a = b" by (intro descend_inj[of a b wd]) blast+
  qed
  with wf have "distinct (map (descend wd) ?locs)" by (simp add: distinct_map)
  moreover have "\<not> strict_descendant (GitRepository.path r') (GitRepository.path r)"
    if "r \<in> set (findGitRepositories wd tree)" "r' \<in> set (findGitRepositories wd tree)" for r r'
  proof
    assume sd: "strict_descendant (GitRepository.path r') (GitRepository.path r)"
    from that have "GitRepository.path r \<in> set (map GitRepository.path (findGitRepositories wd tree))"
      "GitRepository.path r' \<in> set (map GitRepository.path (findGitRepositories wd tree))" by simp_all
    then obtain a b where ab: "a \<in> set ?locs" "b \<in> set ?locs"
      "GitRepository.path r = descend wd a" "GitRepository.path r' = descend wd b"
      unfolding paths by auto
    with sd wf have "strict_prefix a b" by (intro descend_descendant[of a b wd]) auto
    with ab wf show False by blast
  qed
  ultimately show ?thesis using paths by simp
qed

theorem scan_paths_unique_and_outermost_witness:
  "wf_node nested_tree \<and>
   distinct (map GitRepository.path (findGitRepositories ''/r'' nested_tree)) \<and>
   list_all (\<lambda>r. list_all (\<lambda>r'.
       \<not> strict_descendant (GitRepository.path r') (GitRepository.path r))
     (findGitRepositories ''/r'' nested_tree)) (findGitRepositories ''/r'' nested_tree)"
proof -
  have wf: "wf_node nested_tree"
    by (simp add: nested_tree_def valid_name_def)
  from scan_paths_unique_and_outermost[OF wf, of "''/r''"] wf show ?thesis
    by (simp add: list_all_iff)
qed

subsection \<open>Directories that cannot be listed\<close>

lemma scan_unlistable:
  "readdirSync b = None \<Longrightarrow>
   scanDirectory wd dir tlf b =
     (if existsSync_in b ''.git''
      then [\<lparr>GitRepository.name = basename dir, GitRepository.path = dir, topLevelFolder = tlf\<rparr>] else [])"
  by (subst scanDirectory.simps) simp

lemma remove_at_kind:
  "remove_at loc c = c \<or> (isDirectory c \<and> isDirectory (remove_at loc c))"
  by (induction loc c rule: remove_at.induct) auto

lemma marker_update:
  assumes "i < length es" "c' = snd (es ! i) \<or> (isDirectory (snd (es ! i)) \<and> isDirectory c')"
  shows "existsSync_in (Dir l s (es[i := (fst (es ! i), c')])) k = existsSync_in (Dir l s es) k"
proof -
  have "(case map_of (es[i := (fst (es ! i), c')]) k of None \<Rightarrow> False
          | Some (Symlink target resolves) \<Rightarrow> resolves | Some other \<Rightarrow> True) =
        (case map_of es k of None \<Rightarrow> False
          | Some (Symlink target resolves) \<Rightarrow> resolves | Some other \<Rightarrow> True)"
    using assms
  proof (induction es arbitrary: i)
    case Nil
    then show ?case by simp
  next
    case (Cons x xs)
    show ?case
    proof (cases i)
      case 0
      with Cons.prems show ?thesis
        by (cases x; cases "snd x"; cases c') auto
    next
      case (Suc j)
      with Cons show ?thesis by (cases x) auto
    qed
  qed
  then show ?thesis by simp
qed

lemma marker_remove:
  assumes "i < length es" "fst (es ! i) \<noteq> k"
  shows "existsSync_in (Dir l s (take i es @ drop (Suc i) es)) k = existsSync_in (Dir l s es) k"
proof -
  have "map_of (take i es @ drop (Suc i) es) k = map_of es k"
    using assms
  proof (induction es arbitrary: i)
    case Nil
    then show ?case by simp
  next
    case (Cons x xs)
    then show ?case by (cases i; cases x) auto
  qed
  then show ?thesis by simp
qed

lemma entries_update:
  assumes "i < length es" "G (fst (es ! i), c') = G (es ! i)"
  shows "concat (map G (es[i := (fst (es ! i), c')])) = concat (map G es)"
proof -
  have "es = take i es @ es ! i # drop (Suc i) es"
    using assms(1) by (rule id_take_nth_drop)
  then have "concat (map G es) = concat (map G (take i es)) @ G (es ! i) @ concat (map G (drop (Suc i) es))"
    by (metis concat.simps(2) concat_append list.simps(9) map_append)
  moreover have "es[i := (fst (es ! i), c')] = take i es @ (fst (es ! i), c') # drop (Suc i) es"
    using assms(1) by (rule upd_conv_take_nth_drop)
  ultimately show ?thesis using assms(2) by simp
qed

lemma entries_remove:
  assumes "i < length es" "G (es ! i) = []"
  shows "concat (map G (take i es @ drop (Suc i) es)) = concat (map G es)"
proof -
  have "es = take i es @ es ! i # drop (Suc i) es"
    using assms(1) by (rule id_take_nth_drop)
  then have "concat (map G es) = concat (map G (take i es)) @ G (es ! i) @ concat (map G (drop (Suc i) es))"
    by (metis concat.simps(2) concat_append list.simps(9) map_append)
  with assms(2) show ?thesis by simp
qed

lemma scanDirectory_Dir_cong:
  assumes "existsSync_in (Dir l s es') ''.git'' = existsSync_in (Dir l s es) ''.git''"
    and "concat (map (\<lambda>(entry_name, child). if isDirectory child
      then scanDirectory wd (join dir entry_name) (if dir = wd then entry_name else tlf) child
      else []) es') =
     concat (map (\<lambda>(entry_name, child). if isDirectory child
      then scanDirectory wd (join dir entry_name) (if dir = wd then entry_name else tlf) child
      else []) es)"
  shows "scanDirectory wd dir tlf (Dir l s es') = scanDirectory wd dir tlf (Dir l s es)"
  using assms by (simp only: scanDirectory_Dir)

lemma scan_remove_at:
  assumes "entry_at tree loc = Some (nm, b)" "nm \<noteq> ''.git''"
    and "readdirSync b = None" "\<not> existsSync_in b ''.git''"
  shows "scanDirectory wd dir tlf (remove_at loc tree) = scanDirectory wd dir tlf tree"
  using assms(1)
proof (induction loc tree arbitrary: dir tlf rule: remove_at.induct)
  case (1 i l s es)
  then have i: "i < length es" and at: "es ! i = (nm, b)"
    by (simp_all split: if_splits)
  define G where "G = (\<lambda>(entry_name, child). if isDirectory child
      then scanDirectory wd (join dir entry_name) (if dir = wd then entry_name else tlf) child
      else [])"
  have gone: "G (es ! i) = []"
    using at assms(3,4) by (simp add: G_def scan_unlistable)
  have "concat (map G (take i es @ drop (Suc i) es)) = concat (map G es)"
    using i gone by (rule entries_remove)
  moreover have "existsSync_in (Dir l s (take i es @ drop (Suc i) es)) ''.git'' =
      existsSync_in (Dir l s es) ''.git''"
    using i at assms(2) by (intro marker_remove) simp_all
  ultimately have "scanDirectory wd dir tlf (Dir l s (take i es @ drop (Suc i) es)) =
      scanDirectory wd dir tlf (Dir l s es)"
    unfolding G_def by (intro scanDirectory_Dir_cong)
  then show ?case by simp
next
  case (2 i j rest l s es)
  then have i: "i < length es" and at: "entry_at (snd (es ! i)) (j # rest) = Some (nm, b)"
    by (simp_all split: if_splits)
  define c' where "c' = remove_at (j # rest) (snd (es ! i))"
  define G where "G = (\<lambda>(entry_name, child). if isDirectory child
      then scanDirectory wd (join dir entry_name) (if dir = wd then entry_name else tlf) child
      else [])"
  have kind: "c' = snd (es ! i) \<or> (isDirectory (snd (es ! i)) \<and> isDirectory c')"
    unfolding c'_def by (rule remove_at_kind)
  have same: "G (fst (es ! i), c') = G (es ! i)"
    using "2.IH"[OF i at] kind by (cases "es ! i") (auto simp: G_def c'_def)
  have "concat (map G (es[i := (fst (es ! i), c')])) = concat (map G es)"
    using i same by (rule entries_update)
  moreover have "existsSync_in (Dir l s (es[i := (fst (es ! i), c')])) ''.git'' =
      existsSync_in (Dir l s es) ''.git''"
    using i kind by (rule marker_update)
  ultimately have "scanDirectory wd dir tlf (Dir l s (es[i := (fst (es ! i), c')])) =
      scanDirectory wd dir tlf (Dir l s es)"
    unfolding G_def by (intro scanDirectory_Dir_cong)
  moreover have "remove_at (i # j # rest) (Dir l s es) = Dir l s (es[i := (fst (es ! i), c')])"
    using i by (simp add: c'_def)
  ultimately show ?case by simp
qed simp_all

text \<open>
  Claim C8, as stated: a subdirectory whose listing raises contributes zero entries and
  the scan result is the one of the tree without it. The scanner looks for the marker
  before it lists: in \<open>unlistable_repo_tree\<close> the directory \<open>b\<close> cannot be listed, and it
  is reported all the same, because \<open>existsSync\<close> finds \<open>b/.git\<close>. Without \<open>b\<close> the
  result has two entries, with it three.
\<close>

theorem unlistable_directory_reported_counterexample:
  "entry_at unlistable_repo_tree [1] = Some (''b'', Dir False True [(''.git'', Dir True True [])]) \<and>
   readdirSync (Dir False True [(''.git'', Dir True True [])]) = None \<and>
   findGitRepositories ''/r'' unlistable_repo_tree =
     [\<lparr>GitRepository.name = ''a'', GitRepository.path = ''/r/a'', topLevelFolder = ''a''\<rparr>,
      \<lparr>GitRepository.name = ''b'', GitRepository.path = ''/r/b'', topLevelFolder = ''b''\<rparr>,
      \<lparr>GitRepository.name = ''c'', GitRepository.path = ''/r/c'', topLevelFolder = ''c''\<rparr>] \<and>
   findGitRepositories ''/r'' (remove_at [1] unlistable_repo_tree) =
     [\<lparr>GitRepository.name = ''a'', GitRepository.path = ''/r/a'', topLevelFolder = ''a''\<rparr>,
      \<lparr>GitRepository.name = ''c'', GitRepository.path = ''/r/c'', topLevelFolder = ''c''\<rparr>]"
  by (simp add: unlistable_repo_tree_def findGitRepositories_def scanDirectory_eval join_def
      with_slash_def basename_def)

text \<open>
  Claim C8, amended. A subdirectory, not itself named \<open>.git\<close>, whose listing raises and
  in which \<open>existsSync\<close> sees no \<open>.git\<close> contributes zero entries, and the scan of the
  whole tree is exactly the scan of the tree without it. The scan never raises: the
  failed listing is the \<open>None\<close> branch of \<open>scanDirectory\<close>, which returns the empty list.
\<close>

theorem unlistable_directory_skipped:
  assumes "entry_at tree loc = Some (nm, b)" and "nm \<noteq> ''.git''"
    and "readdirSync b = None" and "\<not> existsSync_in b ''.git''"
  shows "scanDirectory wd dir tlf b = [] \<and>
         findGitRepositories wd (remove_at loc tree) = findGitRepositories wd tree"
  using assms by (simp add: scan_unlistable findGitRepositories_def scan_remove_at)

theorem unlistable_directory_skipped_witness:
  "entry_at denied_tree [1] = Some (''b'', Dir False False [(''.git'', Dir True True [])]) \<and>
   findGitRepositories ''/r'' denied_tree =
     [\<lparr>GitRepository.name = ''a'', GitRepository.path = ''/r/a'', topLevelFolder = ''a''\<rparr>,
      \<lparr>GitRepository.name = ''c'', GitRepository.path = ''/r/c'', topLevelFolder = ''c''\<rparr>] \<and>
   scanDirectory ''/r'' ''/r/b'' ''b'' (Dir False False [(''.git'', Dir True True [])]) = [] \<and>
   findGitRepositories ''/r'' (remove_at [1] denied_tree) = findGitRepositories ''/r'' denied_tree"
proof -
  have at: "entry_at denied_tree [1] = Some (''b'', Dir False False [(''.git'', Dir True True [])])"
    by (simp add: denied_tree_def)
  have ev: "findGitRepositories ''/r'' denied_tree =
     [\<lparr>GitRepository.name = ''a'', GitRepository.path = ''/r/a'', topLevelFolder = ''a''\<rparr>,
      \<lparr>GitRepository.name = ''c'', GitRepository.path = ''/r/c'', topLevelFolder = ''c''\<rparr>]"
    by (simp add: denied_tree_def findGitRepositories_def scanDirectory_eval join_def
        with_slash_def basename_def)
  from unlistable_directory_skipped[OF at, of "''/r''" "''/r/b''" "''b''"] at ev
  show ?thesis by simp
qed

subsection \<open>Links are never walked\<close>

lemma without_links_kind [simp]:
  "isDirectory (without_links n) = isDirectory n"
  by (cases n) simp_all

lemma map_of_without_links:
  "map_of (without_links_entries es) ''.git'' = map_option without_links (map_of es ''.git'')"
  by (induction es) auto

lemma exists_without_links [simp]:
  "existsSync_in (without_links n) ''.git'' = existsSync_in n ''.git''"
proof (cases n)
  case (Dir l s es)
  show ?thesis
  proof (cases "map_of es ''.git''")
    case None
    with Dir show ?thesis by (simp add: map_of_without_links)
  next
    case (Some c)
    with Dir show ?thesis by (cases c) (simp_all add: map_of_without_links)
  qed
qed simp_all









section \<open>Properties of the cache store\<close>

subsection \<open>Reading the cache\<close>

lemma read_object:
  "readIdeReposCache wd (Readable (Document (JObj members))) =
     (if map_of members ''version'' = Some (JNum 1) \<and>
         map_of members ''workingDirectory'' = Some (JStr wd)
      then (case map_of members ''repos'' of Some (JArr elements) \<Rightarrow> Some elements | other \<Rightarrow> None)
      else None)"
  by (simp add: readIdeReposCache_def readIdeReposCache_try_def
      split: option.splits json.splits)

lemma read_not_object:
  "\<forall>members. cache \<noteq> Readable (Document (JObj members)) \<Longrightarrow> readIdeReposCache wd cache = None"
proof (cases "cache")
  case (Readable raw)
  assume no: "\<forall>members. cache \<noteq> Readable (Document (JObj members))"
  show ?thesis
  proof (cases raw)
    case Malformed
    with Readable show ?thesis by (simp add: readIdeReposCache_def readIdeReposCache_try_def)
  next
    case (Document v)
    with Readable no show ?thesis
      by (cases v) (simp_all add: readIdeReposCache_def readIdeReposCache_try_def)
  qed
qed (simp_all add: readIdeReposCache_def readIdeReposCache_try_def)

text \<open>
  Claim C4. The cache read returns the cached list exactly when the snapshot file exists,
  parses, has \<open>version\<close> 1, has \<open>workingDirectory\<close> equal to the requested one and has a
  list-shaped \<open>repos\<close> field; in every other case it returns the miss \<open>None\<close>. It never
  raises: \<open>readIdeReposCache\<close> has no error result, every exception of its \<open>try\<close> block
  (\<open>readIdeReposCache_try\<close>) ends in the \<open>catch\<close> that returns \<open>null\<close>.
\<close>

theorem cache_read_hit_iff:
  "(readIdeReposCache wd cache = Some elements \<longleftrightarrow> snapshot_hit wd cache elements) \<and>
   (readIdeReposCache wd cache = None \<longleftrightarrow> (\<nexists>found. snapshot_hit wd cache found))"
proof (cases "\<exists>members. cache = Readable (Document (JObj members))")
  case True
  then obtain members where "cache = Readable (Document (JObj members))" by blast
  then show ?thesis
    by (auto simp: read_object snapshot_hit_def split: option.splits json.splits)
next
  case False
  then have "readIdeReposCache wd cache = None" by (intro read_not_object) blast
  with False show ?thesis by (auto simp: snapshot_hit_def)
qed

theorem cache_read_hit_iff_witness:
  "readIdeReposCache ''/x'' (Readable (Document (JObj
       [(''version'', JNum 1), (''workingDirectory'', JStr ''/x''), (''updatedAt'', JNum 7),
        (''repos'', JArr [JNum 3])]))) = Some [JNum 3] \<and>
   snapshot_hit ''/x'' (Readable (Document (JObj
       [(''version'', JNum 1), (''workingDirectory'', JStr ''/x''), (''updatedAt'', JNum 7),
        (''repos'', JArr [JNum 3])]))) [JNum 3] \<and>
   readIdeReposCache ''/x'' (Readable (Document JNull)) = None \<and>
   readIdeReposCache ''/x'' (Readable Malformed) = None \<and>
   readIdeReposCache ''/y'' (Readable (Document (JObj
       [(''version'', JNum 1), (''workingDirectory'', JStr ''/x''), (''updatedAt'', JNum 7),
        (''repos'', JArr [JNum 3])]))) = None \<and>
   readIdeReposCache ''/x'' (Readable (Document (JObj
       [(''version'', JNum 2), (''workingDirectory'', JStr ''/x''), (''updatedAt'', JNum 7),
        (''repos'', JArr [])]))) = None"
proof -
  let ?cache = "Readable (Document (JObj
       [(''version'', JNum 1), (''workingDirectory'', JStr ''/x''), (''updatedAt'', JNum 7),
        (''repos'', JArr [JNum 3])]))"
  have "readIdeReposCache ''/x'' ?cache = Some [JNum 3]"
    by (simp add: read_object)
  with cache_read_hit_iff[of "''/x''" ?cache "[JNum 3]"] show ?thesis
    by (simp add: read_object readIdeReposCache_def readIdeReposCache_try_def)
qed

subsection \<open>Sorting permutes, writing and reading back\<close>

lemma mset_take_drop: "mset (take k xs) + mset (drop k xs) = mset xs"
  by (metis append_take_drop_id mset_append)

lemma mset_insert_pivot: "mset (insert_pivot comparefn pivot placed) = add_mset pivot (mset placed)"
proof -
  have "mset (take n placed @ pivot # drop n placed) = add_mset pivot (mset placed)" for n
    by (simp add: mset_take_drop)
  then show ?thesis by (simp add: insert_pivot_def Let_def)
qed

lemma mset_binaryInsertionSort:
  "mset (binaryInsertionSort comparefn placed later) = mset placed + mset later"
  by (induction later arbitrary: placed) (simp_all add: mset_insert_pivot)

lemma mset_countAndMakeRun:
  assumes "countAndMakeRun comparefn xs = (n, work)"
  shows "mset (take n work) + mset (drop n work) = mset xs"
proof -
  have "mset work = mset xs"
  proof (cases xs)
    case Nil
    with assms show ?thesis by simp
  next
    case (Cons first rest)
    show ?thesis
    proof (cases rest)
      case Nil
      with Cons assms show ?thesis by simp
    next
      case (Cons second later)
      define k where "k = 2 + run_length comparefn (comparefn second first < 0) second later"
      have "mset (rev (take k xs) @ drop k xs) = mset xs"
        by (simp add: mset_take_drop)
      with assms \<open>xs = first # rest\<close> Cons show ?thesis
        by (auto simp: Let_def k_def split: if_splits)
    qed
  qed
  moreover have "mset (take n work) + mset (drop n work) = mset work"
    by (rule mset_take_drop)
  ultimately show ?thesis by simp
qed

lemma mset_js_sort: "mset (js_sort comparefn xs) = mset xs"
proof (cases "length xs < 2")
  case True
  then show ?thesis by (simp add: js_sort_def)
next
  case False
  obtain n work where run: "countAndMakeRun comparefn xs = (n, work)"
    by (cases "countAndMakeRun comparefn xs")
  from False run have "js_sort comparefn xs = binaryInsertionSort comparefn (take n work) (drop n work)"
    by (simp add: js_sort_def)
  with mset_countAndMakeRun[OF run] show ?thesis
    by (simp add: mset_binaryInsertionSort)
qed

lemma as_repo_json [simp]: "as_GitRepository (repo_json r) = Some r"
  by (simp add: repo_json_def)

lemma as_repos_json [simp]: "as_GitRepositories (map repo_json found) = Some found"
  by (induction found) simp_all

lemma read_after_write:
  "readIdeReposCache wd (writeIdeReposCache wd found now old) = Some (map repo_json found)"
  by (simp add: writeIdeReposCache_def JSON_stringify_def payload_def read_object)


lemma scan_added_repo:
  "findGitRepositories ''/x'' added_repo_tree =
     [\<lparr>GitRepository.name = ''new'', GitRepository.path = ''/x/new'', topLevelFolder = ''new''\<rparr>]"
  by (simp add: added_repo_tree_def findGitRepositories_def scanDirectory_eval join_def
      with_slash_def basename_def)

lemma sortByName_single: "sortByName localeCompare [r] = [r]"
  by (simp add: sortByName_def js_sort_def)

subsection \<open>Refresh\<close>

text \<open>
  Claim C5. With a working directory configured (and existing), the refresh run of
  \<open>loadConfig\<close> scans the tree afresh and replaces the cache file by the snapshot of that
  scan, whatever the file held before: the returned list is the fresh scan result sorted by
  name (a permutation of it) and reading the new file back for the same working directory
  is a hit with that scan result.
\<close>

theorem refresh_rescans_and_overwrites:
  assumes "HshConfig.workingDirectory config = Some wd" and "wd \<noteq> []" and "fs wd = Some tree"
  shows "loadConfig localeCompare fs now True config (st, old) =
           Inr (st\<lparr>ide_state.workingDirectory := Some wd,
                   autoDiscoveredRepos := sortByName localeCompare (findGitRepositories wd tree)\<rparr>,
                Readable (Document (payload wd now (findGitRepositories wd tree)))) \<and>
         mset (sortByName localeCompare (findGitRepositories wd tree)) =
           mset (findGitRepositories wd tree) \<and>
         readIdeReposCache wd (Readable (Document (payload wd now (findGitRepositories wd tree)))) =
           Some (map repo_json (findGitRepositories wd tree))"
  using assms read_after_write[of wd "findGitRepositories wd tree" now old]
  by (simp add: loadConfig_def Let_def writeIdeReposCache_def JSON_stringify_def sortByName_def mset_js_sort)

theorem refresh_rescans_and_overwrites_witness:
  "readIdeReposCache ''/x'' stale_snapshot = Some [] \<and>
   loadConfig no_order (only_at ''/x'' added_repo_tree) 2 True (auto_config [])
       (initial_state, stale_snapshot) =
     Inr (initial_state\<lparr>ide_state.workingDirectory := Some ''/x'',
            autoDiscoveredRepos :=
              [\<lparr>GitRepository.name = ''new'', GitRepository.path = ''/x/new'', topLevelFolder = ''new''\<rparr>]\<rparr>,
          Readable (Document (payload ''/x'' 2
              [\<lparr>GitRepository.name = ''new'', GitRepository.path = ''/x/new'', topLevelFolder = ''new''\<rparr>])))"
proof -
  have stale: "readIdeReposCache ''/x'' stale_snapshot = Some []"
    by (simp add: stale_snapshot_def payload_def read_object)
  have "HshConfig.workingDirectory (auto_config []) = Some ''/x''"
    and "only_at ''/x'' added_repo_tree ''/x'' = Some added_repo_tree"
    by (simp_all add: auto_config_def only_at_def)
  from refresh_rescans_and_overwrites[where config = "auto_config []" and wd = "''/x''"
      and fs = "only_at ''/x'' added_repo_tree" and tree = added_repo_tree
      and localeCompare = no_order and now = 2 and st = initial_state and old = stale_snapshot]
    this stale
  show ?thesis by (simp add: scan_added_repo sortByName_single)
qed

subsection \<open>Warm on miss, twice\<close>

text \<open>
  Claim C6. The default run of \<open>loadConfig\<close> on a miss scans, writes the snapshot and
  returns; and whenever a default run returns, a second default run from the state it left
  returns the same module state (the same repository list) and leaves the same cache file,
  for any clock and any tree under the working directory: it reads the cache, now a hit,
  and does not look at the tree.
\<close>

theorem warm_on_miss_twice:
  assumes "HshConfig.workingDirectory config = Some wd" and "wd \<noteq> []"
    and "fs wd = Some tree" and "fs' wd = Some tree'"
  shows "(readIdeReposCache wd cache = None \<longrightarrow>
            loadConfig localeCompare fs now False config (st, cache) =
              Inr (st\<lparr>ide_state.workingDirectory := Some wd,
                      autoDiscoveredRepos := sortByName localeCompare (findGitRepositories wd tree)\<rparr>,
                   Readable (Document (payload wd now (findGitRepositories wd tree))))) \<and>
         (\<forall>st1 cache1. loadConfig localeCompare fs now False config (st, cache) = Inr (st1, cache1) \<longrightarrow>
            loadConfig localeCompare fs' now' False config (st1, cache1) = Inr (st1, cache1) \<and>
            readIdeReposCache wd cache1 \<noteq> None)"
proof (cases "readIdeReposCache wd cache")
  case None
  let ?found = "findGitRepositories wd tree"
  have first: "loadConfig localeCompare fs now False config (st, cache) =
      Inr (st\<lparr>ide_state.workingDirectory := Some wd,
              autoDiscoveredRepos := sortByName localeCompare ?found\<rparr>,
           Readable (Document (payload wd now ?found)))"
    using assms None
    by (simp add: loadConfig_def Let_def writeIdeReposCache_def JSON_stringify_def)
  have hit: "readIdeReposCache wd (Readable (Document (payload wd now ?found))) = Some (map repo_json ?found)"
    using read_after_write[of wd ?found now cache]
    by (simp add: writeIdeReposCache_def JSON_stringify_def)
  have second: "loadConfig localeCompare fs' now' False config
      (st\<lparr>ide_state.workingDirectory := Some wd,
              autoDiscoveredRepos := sortByName localeCompare ?found\<rparr>,
           Readable (Document (payload wd now ?found))) =
      Inr (st\<lparr>ide_state.workingDirectory := Some wd,
              autoDiscoveredRepos := sortByName localeCompare ?found\<rparr>,
           Readable (Document (payload wd now ?found)))"
    using assms hit by (simp add: loadConfig_def Let_def)
  from first second hit show ?thesis by simp
next
  case (Some cached)
  show ?thesis
  proof (cases "as_GitRepositories cached")
    case None
    with Some assms show ?thesis by (simp add: loadConfig_def Let_def)
  next
    case found: (Some found)
    have first: "loadConfig localeCompare fs now False config (st, cache) =
      Inr (st\<lparr>ide_state.workingDirectory := Some wd,
              autoDiscoveredRepos := sortByName localeCompare found\<rparr>, cache)"
      using assms Some found by (simp add: loadConfig_def Let_def)
    have second: "loadConfig localeCompare fs' now' False config
        (st\<lparr>ide_state.workingDirectory := Some wd,
              autoDiscoveredRepos := sortByName localeCompare found\<rparr>, cache) =
      Inr (st\<lparr>ide_state.workingDirectory := Some wd,
              autoDiscoveredRepos := sortByName localeCompare found\<rparr>, cache)"
      using assms Some found by (simp add: loadConfig_def Let_def)
    from first second Some show ?thesis by simp
  qed
qed

theorem warm_on_miss_twice_witness:
  "loadConfig no_order (only_at ''/x'' added_repo_tree) 5 False (auto_config [])
       (initial_state, Absent) =
     Inr (initial_state\<lparr>ide_state.workingDirectory := Some ''/x'',
            autoDiscoveredRepos :=
              [\<lparr>GitRepository.name = ''new'', GitRepository.path = ''/x/new'', topLevelFolder = ''new''\<rparr>]\<rparr>,
          Readable (Document (payload ''/x'' 5
              [\<lparr>GitRepository.name = ''new'', GitRepository.path = ''/x/new'', topLevelFolder = ''new''\<rparr>]))) \<and>
   loadConfig no_order (only_at ''/x'' (Dir True True [])) 9 False (auto_config [])
       (initial_state\<lparr>ide_state.workingDirectory := Some ''/x'',
            autoDiscoveredRepos :=
              [\<lparr>GitRepository.name = ''new'', GitRepository.path = ''/x/new'', topLevelFolder = ''new''\<rparr>]\<rparr>,
          Readable (Document (payload ''/x'' 5
              [\<lparr>GitRepository.name = ''new'', GitRepository.path = ''/x/new'', topLevelFolder = ''new''\<rparr>]))) =
     Inr (initial_state\<lparr>ide_state.workingDirectory := Some ''/x'',
            autoDiscoveredRepos :=
              [\<lparr>GitRepository.name = ''new'', GitRepository.path = ''/x/new'', topLevelFolder = ''new''\<rparr>]\<rparr>,
          Readable (Document (payload ''/x'' 5
              [\<lparr>GitRepository.name = ''new'', GitRepository.path = ''/x/new'', topLevelFolder = ''new''\<rparr>])))"
proof -
  have miss: "readIdeReposCache ''/x'' Absent = None"
    by (simp add: readIdeReposCache_def)
  have "HshConfig.workingDirectory (auto_config []) = Some ''/x''"
    and "only_at ''/x'' added_repo_tree ''/x'' = Some added_repo_tree"
    and "only_at ''/x'' (Dir True True []) ''/x'' = Some (Dir True True [])"
    by (simp_all add: auto_config_def only_at_def)
  from warm_on_miss_twice[where config = "auto_config []" and wd = "''/x''"
      and fs = "only_at ''/x'' added_repo_tree" and tree = added_repo_tree
      and fs' = "only_at ''/x'' (Dir True True [])" and tree' = "Dir True True []"
      and localeCompare = no_order and now = 5 and now' = 9 and st = initial_state
      and cache = Absent]
    this miss
  show ?thesis by (simp add: scan_added_repo sortByName_single)
qed

section \<open>Properties of the catalog and the picker\<close>

subsection \<open>The working directory and the manual map\<close>

text \<open>
  Claim C9, as stated: two configurations with the same working-directory setting present
  give the same project list whatever their manual maps. \<open>loadConfig\<close> tests the setting
  for truth, and the empty string is false: with \<open>workingDirectory\<close> set to the empty
  string the manual map is used and the lists differ with it.
\<close>

theorem empty_working_directory_counterexample:
  "HshConfig.workingDirectory (empty_wd_config [(''work'', [(''api'', ''/srv/api'')])]) =
     HshConfig.workingDirectory (empty_wd_config []) \<and>
   HshConfig.workingDirectory (empty_wd_config []) = Some [] \<and>
   openIDE_choices no_order (only_at ''/x'' added_repo_tree) 5
       (empty_wd_config [(''work'', [(''api'', ''/srv/api'')])]) Absent [] =
     Inr [Choice ''api (work)''
            \<lparr>category = ''work'', name = ''api'', path = ''/srv/api'', display = ''api (work)''\<rparr>] \<and>
   openIDE_choices no_order (only_at ''/x'' added_repo_tree) 5 (empty_wd_config []) Absent [] =
     Inr []"
  by (simp add: openIDE_choices_def loadConfig_def Let_def empty_wd_config_def initial_state_def
      searchAllProjects_def getAllProjects_def filteredProjects_def)

text \<open>
  Claim C9, amended. Two configurations whose working-directory setting is present, not
  empty and the same load into the same state, whatever their manual maps, and give the
  same rows to the prompt; the projects of the loaded state do not depend on the manual
  map held in the module state either.
\<close>

theorem working_directory_overrides_manual_map:
  assumes "HshConfig.workingDirectory config = Some wd"
    and "HshConfig.workingDirectory config' = Some wd" and "wd \<noteq> []"
  shows "loadConfig localeCompare fs now refresh config state =
           loadConfig localeCompare fs now refresh config' state \<and>
         openIDE_choices localeCompare fs now config cache input =
           openIDE_choices localeCompare fs now config' cache input \<and>
         (\<forall>st cache'. loadConfig localeCompare fs now refresh config state = Inr (st, cache') \<longrightarrow>
            getAllProjects (st\<lparr>reposConfig := manual\<rparr>) = getAllProjects st)"
proof -
  have same: "loadConfig localeCompare fs now r config s = loadConfig localeCompare fs now r config' s"
    for r s
    using assms by (simp add: loadConfig_def Let_def)
  have "getAllProjects (st\<lparr>reposConfig := manual\<rparr>) = getAllProjects st"
    if "loadConfig localeCompare fs now refresh config state = Inr (st, cache')" for st cache'
  proof -
    from that assms have "ide_state.workingDirectory st = Some wd"
      by (cases state)
         (auto simp: loadConfig_def Let_def split: option.splits if_splits)
    with assms(3) show ?thesis by (simp add: getAllProjects_def)
  qed
  with same show ?thesis by (simp add: openIDE_choices_def)
qed


theorem working_directory_overrides_manual_map_witness:
  "openIDE_choices no_order (only_at ''/x'' added_repo_tree) 5
       (auto_config [(''work'', [(''api'', ''/srv/api'')])]) Absent [] =
   openIDE_choices no_order (only_at ''/x'' added_repo_tree) 5 (auto_config []) Absent [] \<and>
   openIDE_choices no_order (only_at ''/x'' added_repo_tree) 5 (auto_config []) Absent [] =
     Inr [Separator ''---------  new  ---------'',
          Choice ''  new (/x/new)''
            \<lparr>category = ''new'', name = ''new'', path = ''/x/new'', display = ''new (/x/new)''\<rparr>]"
proof -
  have ev: "openIDE_choices no_order (only_at ''/x'' added_repo_tree) 5 (auto_config []) Absent [] =
     Inr [Separator ''---------  new  ---------'',
          Choice ''  new (/x/new)''
            \<lparr>category = ''new'', name = ''new'', path = ''/x/new'', display = ''new (/x/new)''\<rparr>]"
    by (simp add: openIDE_choices_def loadConfig_def Let_def auto_config_def only_at_def
        readIdeReposCache_def scan_added_repo sortByName_single writeIdeReposCache_def
        initial_state_def searchAllProjects_def getAllProjects_def filteredProjects_def
        formatProjectsWithSeparators_def sortedCategories_def group_project_def js_sort_def)
  have "HshConfig.workingDirectory (auto_config [(''work'', [(''api'', ''/srv/api'')])]) = Some ''/x''"
    and "HshConfig.workingDirectory (auto_config []) = Some ''/x''"
    by (simp_all add: auto_config_def)
  from working_directory_overrides_manual_map[where wd = "''/x''"
      and config = "auto_config [(''work'', [(''api'', ''/srv/api'')])]"
      and config' = "auto_config []" and localeCompare = no_order
      and fs = "only_at ''/x'' added_repo_tree" and now = 5 and cache = Absent and input = "[]"]
    this ev
  show ?thesis by simp
qed

subsection \<open>Searching\<close>

lemma string_includes_sublist: "string_includes whole keyword \<longleftrightarrow> sublist keyword whole"
  by (induction whole) (simp_all add: sublist_Cons_right)

lemma lower_char_idem [simp]: "lower_char (lower_char c) = lower_char c"
  by (simp add: lower_char_def)

lemma is_space_lower [simp]: "is_space (lower_char c) = is_space c"
  by (auto simp: lower_char_def is_space_def)

lemma toLowerCase_idem [simp]: "toLowerCase (toLowerCase s) = toLowerCase s"
  by (simp add: toLowerCase_def)

lemma trim_toLowerCase: "trim (toLowerCase s) = toLowerCase (trim s)"
  by (simp add: trim_def toLowerCase_def dropWhile_map rev_map comp_def)

lemma split_pieces:
  "piece \<in> set (split_from acc s) \<Longrightarrow> set piece \<subseteq> set acc \<union> set s"
  "piece \<in> set (split_skip s) \<Longrightarrow> set piece \<subseteq> set s"
  by (induction acc s and s arbitrary: piece and piece rule: split_from_split_skip.induct)
     (auto split: if_splits)

lemma keyword_lower:
  assumes "keyword \<in> set (split_ws (toLowerCase s))"
  shows "toLowerCase keyword = keyword"
proof -
  from assms have "set keyword \<subseteq> set (toLowerCase s)"
    using split_pieces(1)[of keyword "[]" "toLowerCase s"] by (simp add: split_ws_def)
  then have "\<forall>c \<in> set keyword. lower_char c = c"
    by (auto simp: toLowerCase_def)
  then show ?thesis by (simp add: toLowerCase_def map_idI)
qed

text \<open>
  Claim C2, as stated: an entry passes the filter exactly when every keyword is a
  case-insensitive substring of the concatenation of its name, category and path. The
  text searched is not that concatenation: the three fields are joined by single spaces,
  and a keyword never contains white space, so a keyword that runs from the end of one
  field into the start of the next occurs in the concatenation and not in the text
  searched. The keyword \<open>bc\<close> is found in \<open>ab\<close>, \<open>cd\<close>, \<open>/x\<close> concatenated, and the entry
  is filtered out.
\<close>

theorem cross_field_keyword_counterexample:
  "spec_keywords ''bc'' = [''bc''] \<and>
   ci_substring ''bc''
     (project.name cross_field_project @ category cross_field_project @
      project.path cross_field_project) \<and>
   filteredProjects ''bc'' [cross_field_project] = []"
proof -
  have "spec_keywords ''bc'' = [''bc'']"
    by (simp add: spec_keywords_def split_ws_def trim_def toLowerCase_def lower_char_def
        is_space_def)
  moreover have "ci_substring ''bc''
     (project.name cross_field_project @ category cross_field_project @
      project.path cross_field_project)"
    by (simp add: ci_substring_def cross_field_project_def toLowerCase_def lower_char_def
        sublist_Cons_right)
  moreover have "filteredProjects ''bc'' [cross_field_project] = []"
    by (simp add: filteredProjects_def cross_field_project_def split_ws_def trim_def
        toLowerCase_def lower_char_def is_space_def)
  ultimately show ?thesis by simp
qed

text \<open>
  Claim C2, amended. The empty search string keeps every entry. For a search string that
  is not empty, an entry passes the filter exactly when every keyword is a case-insensitive
  substring of the text made of the entry's name, category and path joined by single
  spaces.
\<close>

theorem search_matches_all_keywords:
  "filteredProjects [] allProjects = allProjects \<and>
   (input \<noteq> [] \<longrightarrow>
      (p \<in> set (filteredProjects input allProjects) \<longleftrightarrow>
         p \<in> set allProjects \<and>
         (\<forall>keyword \<in> set (spec_keywords input).
            ci_substring keyword (project.name p @ '' '' @ category p @ '' '' @ project.path p))))"
proof -
  have "string_includes (toLowerCase whole) keyword \<longleftrightarrow> ci_substring keyword whole"
    if "keyword \<in> set (spec_keywords input)" for keyword whole
    using keyword_lower[of keyword "trim input"] that
    by (simp add: spec_keywords_def ci_substring_def string_includes_sublist)
  then show ?thesis
    by (auto simp: filteredProjects_def Let_def list_all_iff trim_toLowerCase
        simp flip: spec_keywords_def)
qed


theorem search_matches_all_keywords_witness:
  "filteredProjects [] [cross_field_project] = [cross_field_project] \<and>
   spec_keywords ''  AB   /x '' = [''ab'', ''/x''] \<and>
   list_all (\<lambda>keyword. ci_substring keyword
       (project.name cross_field_project @ '' '' @ category cross_field_project @ '' '' @
        project.path cross_field_project)) (spec_keywords ''  AB   /x '') \<and>
   cross_field_project \<in> set (filteredProjects ''  AB   /x '' [cross_field_project])"
proof -
  have kw: "spec_keywords ''  AB   /x '' = [''ab'', ''/x'']"
    by code_simp
  have sub: "list_all (\<lambda>keyword. ci_substring keyword
       (project.name cross_field_project @ '' '' @ category cross_field_project @ '' '' @
        project.path cross_field_project)) [''ab'', ''/x'']"
    by (simp add: ci_substring_def cross_field_project_def toLowerCase_def lower_char_def
        sublist_Cons_right)
  from search_matches_all_keywords[of "[cross_field_project]" "''  AB   /x ''" cross_field_project]
    kw sub
  show ?thesis by (simp add: list_all_iff)
qed

subsection \<open>The order of the separators\<close>

text \<open>
  The comparator answers 1 (``the first argument sorts after the second'') whenever either
  argument is the root category: it places the root after every other category and every
  other category after the root.
\<close>

lemma compareCategories_root:
  "compareCategories localeCompare a ''/'' = 1 \<and> compareCategories localeCompare ''/'' b = 1"
  by (simp add: compareCategories_def)

text \<open>
  No element is ever inserted in front of a first element that the comparator never
  places after the new one, and the sort does not reverse a run that starts with such an
  element. The root category is such an element: when the first entry of a catalog is in
  the root category, the root separator is the first row, whatever else the catalog holds.
\<close>

lemma insertion_point_ge: "left \<le> insertion_point comparefn pivot work left right"
proof (induction comparefn pivot work left right rule: insertion_point.induct)
  case (1 comparefn pivot work left right)
  show ?case
  proof (cases "left < right")
    case False
    then show ?thesis by (simp add: insertion_point.simps)
  next
    case True
    define mid where "mid = left + (right - left) div 2"
    show ?thesis
    proof (cases "comparefn pivot (work ! mid) < 0")
      case neg: True
      with True "1.IH"(1)[OF True mid_def] show ?thesis
        by (subst insertion_point.simps) (simp add: mid_def Let_def)
    next
      case nonneg: False
      with True "1.IH"(2)[OF True mid_def] show ?thesis
        by (subst insertion_point.simps) (simp add: mid_def Let_def)
    qed
  qed
qed

lemma insertion_point_after_first:
  "\<not> comparefn pivot (work ! 0) < 0 \<Longrightarrow> left < right \<Longrightarrow>
   0 < insertion_point comparefn pivot work left right"
proof (induction comparefn pivot work left right rule: insertion_point.induct)
  case (1 comparefn pivot work left right)
  define mid where "mid = left + (right - left) div 2"
  show ?case
  proof (cases "comparefn pivot (work ! mid) < 0")
    case True
    with "1.prems"(1) have "mid \<noteq> 0" by (cases "mid = 0") simp_all
    then have "left < mid \<or> 0 < left" by (auto simp: mid_def)
    then have "0 < insertion_point comparefn pivot work left mid"
    proof
      assume "left < mid"
      with "1.IH"(1)[OF "1.prems"(2) mid_def True "1.prems"(1)] show ?thesis .
    next
      assume "0 < left"
      with insertion_point_ge[of left comparefn pivot work mid] show ?thesis by simp
    qed
    with True "1.prems"(2) show ?thesis
      by (subst insertion_point.simps) (simp add: mid_def Let_def)
  next
    case False
    have "mid + 1 \<le> insertion_point comparefn pivot work (mid + 1) right"
      by (rule insertion_point_ge)
    with False "1.prems"(2) show ?thesis
      by (subst insertion_point.simps) (simp add: mid_def Let_def)
  qed
qed

lemma insert_pivot_keeps_first:
  assumes "placed \<noteq> []" and "\<not> comparefn pivot (hd placed) < 0"
  shows "insert_pivot comparefn pivot placed \<noteq> [] \<and>
         hd (insert_pivot comparefn pivot placed) = hd placed"
proof -
  from assms have "\<not> comparefn pivot (placed ! 0) < 0" by (simp add: hd_conv_nth)
  moreover from assms have "0 < length placed" by simp
  ultimately have "0 < insertion_point comparefn pivot placed 0 (length placed)"
    by (rule insertion_point_after_first)
  with assms(1) show ?thesis
    by (simp add: insert_pivot_def Let_def)
qed

lemma binaryInsertionSort_keeps_first:
  assumes "\<And>pivot. \<not> comparefn pivot r < 0"
  shows "placed \<noteq> [] \<Longrightarrow> hd placed = r \<Longrightarrow>
         hd (binaryInsertionSort comparefn placed later) = r"
proof (induction later arbitrary: placed)
  case Nil
  then show ?case by simp
next
  case (Cons pivot later)
  from insert_pivot_keeps_first[of placed comparefn pivot] Cons.prems assms
  have "insert_pivot comparefn pivot placed \<noteq> []"
    and "hd (insert_pivot comparefn pivot placed) = r" by simp_all
  then show ?case using Cons.IH by simp
qed

lemma js_sort_keeps_first:
  assumes "\<And>pivot. \<not> comparefn pivot r < 0"
  shows "hd (js_sort comparefn (r # rest)) = r"
proof (cases rest)
  case Nil
  then show ?thesis by (simp add: js_sort_def)
next
  case (Cons second later)
  define k where "k = 2 + run_length comparefn False second later"
  have run: "countAndMakeRun comparefn (r # rest) = (k, r # rest)"
    using Cons assms[of second] by (simp add: k_def Let_def)
  have "take k (r # rest) \<noteq> []" "hd (take k (r # rest)) = r"
    by (simp_all add: k_def)
  then have "hd (binaryInsertionSort comparefn (take k (r # rest)) (drop k (r # rest))) = r"
    using assms by (intro binaryInsertionSort_keeps_first[where r = r]) simp_all
  with run Cons show ?thesis by (simp add: js_sort_def)
qed

lemma group_project_keeps_first:
  "grouped \<noteq> [] \<Longrightarrow>
   group_project grouped p \<noteq> [] \<and> fst (hd (group_project grouped p)) = fst (hd grouped)"
  by (cases grouped) (auto simp: group_project_def Let_def split: if_splits)

lemma grouped_first_key:
  "grouped \<noteq> [] \<Longrightarrow>
   foldl group_project grouped ps \<noteq> [] \<and>
   fst (hd (foldl group_project grouped ps)) = fst (hd grouped)"
proof (induction ps arbitrary: grouped)
  case Nil
  then show ?case by simp
next
  case (Cons p ps)
  from group_project_keeps_first[OF Cons.prems, of p] Cons.IH[of "group_project grouped p"]
  show ?case by simp
qed

lemma root_first_in_catalog_rendered_first:
  assumes "category p = ''/''"
  shows "hd (formatProjectsWithSeparators localeCompare (p # ps)) =
           Separator ''---------  / (root)  ---------''"
proof -
  define grouped where "grouped = foldl group_project [] (p # ps)"
  have "group_project [] p = [(''/'', [p])]"
    using assms by (simp add: group_project_def)
  then have "grouped \<noteq> [] \<and> fst (hd grouped) = ''/''"
    using grouped_first_key[of "group_project [] p" ps] by (simp add: grouped_def)
  then obtain members others where g: "grouped = (''/'', members) # others"
    by (cases grouped) auto
  have "hd (js_sort (compareCategories localeCompare) (''/'' # map fst others)) = ''/''"
    by (rule js_sort_keeps_first) (simp add: compareCategories_def)
  moreover have "length (js_sort (compareCategories localeCompare) (''/'' # map fst others)) =
      length (''/'' # map fst others)"
    using mset_js_sort[of "compareCategories localeCompare" "''/'' # map fst others"]
    by (metis size_mset)
  ultimately obtain more where
    "js_sort (compareCategories localeCompare) (''/'' # map fst others) = ''/'' # more"
    by (cases "js_sort (compareCategories localeCompare) (''/'' # map fst others)") auto
  then have "sortedCategories localeCompare (p # ps) = ''/'' # more"
    using g unfolding sortedCategories_def grouped_def[symmetric] by simp
  then show ?thesis
    by (simp add: formatProjectsWithSeparators_def Let_def)
qed

text \<open>
  Claim C1. The separators should come in ascending alphabetical order with the root
  category \<open>/\<close> last. For a catalog whose first entry is in the root category and whose
  second is in the category \<open>a\<close>, the sort leaves the root first, and the separator
  \<open>/ (root)\<close> is rendered before the separator \<open>a\<close>, for every \<open>localeCompare\<close>.
\<close>

theorem root_category_not_last:
  "sortedCategories localeCompare root_first_projects = [''/'', ''a''] \<and>
   formatProjectsWithSeparators localeCompare root_first_projects =
     [Separator ''---------  / (root)  ---------'',
      Choice ''  work (/work)''
        \<lparr>category = ''/'', name = ''work'', path = ''/work'', display = ''work (/work)''\<rparr>,
      Separator ''---------  a  ---------'',
      Choice ''  x (/work/a/x)''
        \<lparr>category = ''a'', name = ''x'', path = ''/work/a/x'', display = ''x (/work/a/x)''\<rparr>]"
proof -
  have g: "foldl group_project [] root_first_projects =
      [(''/'', [\<lparr>category = ''/'', name = ''work'', path = ''/work'', display = ''work (/work)''\<rparr>]),
       (''a'', [\<lparr>category = ''a'', name = ''x'', path = ''/work/a/x'', display = ''x (/work/a/x)''\<rparr>])]"
    by (simp add: root_first_projects_def group_project_def)
  have s: "sortedCategories localeCompare root_first_projects = [''/'', ''a'']"
    by (simp add: sortedCategories_def g js_sort_def compareCategories_def)
  show ?thesis
    by (simp add: formatProjectsWithSeparators_def s g)
qed

end
